theory Spec2Isabelle
  imports Main
begin

section \<open>Runes and strings\<close>

text \<open>
  The lexer reads its input rune by rune (\<^verbatim>\<open>bufio.Reader.ReadRune\<close>). A rune is modelled
  by its code point, a Go string by the list of its runes. \<open>rune_of\<close> gives the code
  point of a character literal and \<open>runes\<close> that of a string literal.
\<close>

type_synonym rune = nat
type_synonym gostring = "rune list"

abbreviation rune_of :: "char \<Rightarrow> rune" where
  "rune_of c \<equiv> of_char c"

definition runes :: "string \<Rightarrow> gostring" where
  "runes s = map of_char s"

section \<open>lexer.go\<close>

text \<open>
  Modelled from the spec: the token kinds \<^verbatim>\<open>LOWER_THAN\<close>, \<^verbatim>\<open>LOWER_THAN_EQUAL\<close>,
  \<^verbatim>\<open>GREATER_THAN\<close> and \<^verbatim>\<open>GREATER_THAN_EQUAL\<close>. The switch of \<^verbatim>\<open>Parser.Parse\<close> names
  these four constants and the spec lists them among the token kinds, but \<^verbatim>\<open>lexer.go\<close>
  does not declare them. The other twelve kinds are the constants of \<^verbatim>\<open>lexer.go\<close>, in
  its order.
\<close>

datatype Token =
    ILLEGAL
  | EOF
  | WS
  | IDENT
  | COMMA
  | EXCLAMATION_MARK
  | IN
  | NOT
  | EQUAL
  | NOT_EQUAL
  | OPENING_BRACKET
  | CLOSING_BRACKET
  | LOWER_THAN
  | LOWER_THAN_EQUAL
  | GREATER_THAN
  | GREATER_THAN_EQUAL

definition eof :: rune where
  "eof = 0"

definition isWhitespace :: "rune \<Rightarrow> bool" where
  "isWhitespace ch \<longleftrightarrow> ch = rune_of CHR '' '' \<or> ch = rune_of CHR 0x09 \<or> ch = rune_of CHR 0x0A"

definition isValidIdentRune :: "rune \<Rightarrow> bool" where
  "isValidIdentRune ch \<longleftrightarrow>
     (ch \<ge> rune_of CHR ''a'' \<and> ch \<le> rune_of CHR ''z'') \<or>
     (ch \<ge> rune_of CHR ''A'' \<and> ch \<le> rune_of CHR ''Z'') \<or>
     (ch \<ge> rune_of CHR ''0'' \<and> ch \<le> rune_of CHR ''9'') \<or>
     (ch = rune_of CHR ''_'') \<or>
     (ch = rune_of CHR ''-'') \<or>
     (ch = rune_of CHR ''.'') \<or>
     (ch = rune_of CHR ''/'')"

text \<open>
  The lexer owns a buffered reader. Of the reader only two things are observable through
  \<^verbatim>\<open>ReadRune\<close> and \<^verbatim>\<open>UnreadRune\<close>: the runes not yet read (\<open>pending\<close>) and the rune
  that \<^verbatim>\<open>UnreadRune\<close> would put back (\<open>unreadable\<close>), which exists only directly after a
  \<^verbatim>\<open>ReadRune\<close> that returned a rune: a failed \<^verbatim>\<open>ReadRune\<close> and an \<^verbatim>\<open>UnreadRune\<close>
  both clear it, and then \<^verbatim>\<open>UnreadRune\<close> returns an error, which \<open>unread\<close> ignores.
\<close>

record Lexer =
  pending :: "rune list"
  unreadable :: "rune option"

definition NewLexer :: "gostring \<Rightarrow> Lexer" where
  "NewLexer input = \<lparr>pending = input, unreadable = None\<rparr>"

definition read :: "Lexer \<Rightarrow> rune \<times> Lexer" where
  "read s = (case pending s of
               [] \<Rightarrow> (eof, \<lparr>pending = [], unreadable = None\<rparr>)
             | ch # rest \<Rightarrow> (ch, \<lparr>pending = rest, unreadable = Some ch\<rparr>))"

definition unread :: "Lexer \<Rightarrow> Lexer" where
  "unread s = (case unreadable s of
                 None \<Rightarrow> s
               | Some ch \<Rightarrow> \<lparr>pending = ch # pending s, unreadable = None\<rparr>)"

lemma read_shorter:
  "read s = (ch, s') \<Longrightarrow> ch \<noteq> eof \<Longrightarrow> length (pending s') < length (pending s)"
  by (auto simp: read_def eof_def split: list.splits)

text \<open>The loop of \<^verbatim>\<open>scanWhitespace\<close>; \<open>b\<close> is the buffer.\<close>

function scanWhitespace_loop :: "gostring \<Rightarrow> Lexer \<Rightarrow> gostring \<times> Lexer" where
  "scanWhitespace_loop b s =
     (case read s of (ch, s1) \<Rightarrow>
        if ch = eof then (b, s1)
        else if \<not> isWhitespace ch then (b, unread s1)
        else scanWhitespace_loop (b @ [ch]) s1)"
  by pat_completeness auto
termination
  by (relation "measure (\<lambda>(b, s). length (pending s))") (auto dest: read_shorter [OF sym])

declare scanWhitespace_loop.simps [simp del]

definition scanWhitespace :: "Lexer \<Rightarrow> Token \<times> gostring \<times> Lexer" where
  "scanWhitespace s =
     (case read s of (ch, s1) \<Rightarrow>
        case scanWhitespace_loop [ch] s1 of (b, s2) \<Rightarrow> (WS, b, s2))"

text \<open>
  \<^verbatim>\<open>strings.ToUpper\<close> on the runes an identifier can hold: \<^verbatim>\<open>scanIdent\<close> is entered
  only on a rune of \<open>isValidIdentRune\<close> and collects only such runes, all of them ASCII,
  where upper-casing shifts the lower-case letters and keeps the rest.
\<close>

definition ToUpper :: "gostring \<Rightarrow> gostring" where
  "ToUpper s = map (\<lambda>ch. if rune_of CHR ''a'' \<le> ch \<and> ch \<le> rune_of CHR ''z'' then ch - 32 else ch) s"

function scanIdent_loop :: "gostring \<Rightarrow> Lexer \<Rightarrow> gostring \<times> Lexer" where
  "scanIdent_loop b s =
     (case read s of (ch, s1) \<Rightarrow>
        if ch = eof then (b, s1)
        else if \<not> isValidIdentRune ch then (b, unread s1)
        else scanIdent_loop (b @ [ch]) s1)"
  by pat_completeness auto
termination
  by (relation "measure (\<lambda>(b, s). length (pending s))") (auto dest: read_shorter [OF sym])

declare scanIdent_loop.simps [simp del]

definition scanIdent :: "Lexer \<Rightarrow> Token \<times> gostring \<times> Lexer" where
  "scanIdent s =
     (case read s of (ch, s1) \<Rightarrow>
        case scanIdent_loop [ch] s1 of (b, s2) \<Rightarrow>
          if ToUpper b = runes ''NOT'' then (NOT, b, s2)
          else if ToUpper b = runes ''IN'' then (IN, b, s2)
          else (IDENT, b, s2))"

text \<open>The loop of \<^verbatim>\<open>scanQuotedIdent\<close>, with its variables \<^verbatim>\<open>buf\<close> (here \<open>b\<close>) and \<^verbatim>\<open>last\<close> (here \<open>last'\<close>).\<close>

function scanQuotedIdent_loop :: "gostring \<Rightarrow> rune \<Rightarrow> Lexer \<Rightarrow> gostring \<times> Lexer" where
  "scanQuotedIdent_loop b last' s =
     (case read s of (ch, s1) \<Rightarrow>
        if ch = eof \<or> (ch = rune_of CHR 0x22 \<and> last' \<noteq> rune_of CHR 0x5C) then (b, s1)
        else scanQuotedIdent_loop (b @ [ch]) ch s1)"
  by pat_completeness auto
termination
proof (relation "measure (\<lambda>(b, last', s). length (pending s))", goal_cases)
  case 1
  show ?case by simp
next
  case (2 b last' s x y)
  from 2(1) have "read s = (x, y)" by simp
  moreover from 2(2) have "x \<noteq> eof" by blast
  ultimately have "length (pending y) < length (pending s)" by (rule read_shorter)
  then show ?case by simp
qed

declare scanQuotedIdent_loop.simps [simp del]

definition scanQuotedIdent :: "Lexer \<Rightarrow> Token \<times> gostring \<times> Lexer" where
  "scanQuotedIdent s =
     (case scanQuotedIdent_loop [] 0 s of (b, s1) \<Rightarrow> (IDENT, b, s1))"

text \<open>
  \<^verbatim>\<open>Lexer.Next\<close>. In the cases of \<^verbatim>\<open>!\<close> and \<^verbatim>\<open>=\<close> the inner \<^verbatim>\<open>ch := s.read()\<close> shadows the
  outer \<^verbatim>\<open>ch\<close>, so the literal returned with \<^verbatim>\<open>EXCLAMATION_MARK\<close> and with a single
  \<^verbatim>\<open>=\<close> is the rune that follows.
\<close>

definition Next :: "Lexer \<Rightarrow> Token \<times> gostring \<times> Lexer" where
  "Next s =
     (case read s of (ch, s1) \<Rightarrow>
        if isWhitespace ch then scanWhitespace (unread s1)
        else if isValidIdentRune ch then scanIdent (unread s1)
        else if ch = rune_of CHR 0x22 then scanQuotedIdent s1
        else if ch = eof then (EOF, [], s1)
        else if ch = rune_of CHR ''!'' then
          (case read s1 of (ch', s2) \<Rightarrow>
             if ch' = rune_of CHR ''='' then (NOT_EQUAL, runes ''!='', s2)
             else (EXCLAMATION_MARK, [ch'], unread s2))
        else if ch = rune_of CHR ''='' then
          (case read s1 of (ch', s2) \<Rightarrow>
             if ch' = rune_of CHR ''='' then (EQUAL, runes ''=='', s2)
             else (EQUAL, [ch'], unread s2))
        else if ch = rune_of CHR '','' then (COMMA, [ch], s1)
        else if ch = rune_of CHR ''('' then (OPENING_BRACKET, [ch], s1)
        else if ch = rune_of CHR '')'' then (CLOSING_BRACKET, [ch], s1)
        else (ILLEGAL, [ch], s1))"

section \<open>The data model\<close>

text \<open>
  \<^verbatim>\<open>Operation\<close> is a string type with ten named constants; the zero value is the empty
  string.
\<close>

type_synonym Operation = string

definition OperationIn :: Operation where "OperationIn = ''in''"
definition OperationNotIn :: Operation where "OperationNotIn = ''notIn''"
definition OperationExists :: Operation where "OperationExists = ''exists''"
definition OperationEquals :: Operation where "OperationEquals = ''equals''"
definition OperationNotExists :: Operation where "OperationNotExists = ''notExist''"
definition OperationNotEquals :: Operation where "OperationNotEquals = ''notEquals''"
definition OperationLowerThan :: Operation where "OperationLowerThan = ''lowerThan''"
definition OperationGreaterThan :: Operation where "OperationGreaterThan = ''greaterThan''"
definition OperationLowerThanEqual :: Operation where "OperationLowerThanEqual = ''lowerThanEqual''"
definition OperationGreaterThanEqual :: Operation where "OperationGreaterThanEqual = ''greaterThanEqual''"

record Requirement =
  Key :: gostring
  Value :: gostring
  Values :: "gostring list"
  Operation :: Operation

record LabelSelector =
  Requirements :: "Requirement list"

text \<open>The zero value of \<^verbatim>\<open>Requirement\<close>, which a named result holds until it is assigned.\<close>

definition zeroRequirement :: Requirement where
  "zeroRequirement = \<lparr>Key = [], Value = [], Values = [], Operation = []\<rparr>"

section \<open>Errors\<close>

text \<open>
  Every error of the parser is made by \<^verbatim>\<open>errors.New\<close> or \<^verbatim>\<open>fmt.Errorf\<close> from one of
  twelve messages, three of which embed a token literal. An error is modelled by the
  message it was made from; \<open>Error\<close> is the text of the message.
\<close>

datatype error =
    IllegalToken
  | UnexpectedToken gostring
  | ExpectIdentAfterNotEqual
  | ExpectIdentAfterEqual
  | ExpectIdentAfterLowerThan
  | ExpectIdentAfterLowerThanEqual
  | ExpectIdentAfterGreaterThan
  | ExpectIdentAfterGreaterThanEqual
  | UnexpectedTokenInValueList gostring
  | ExpectIdentAfterExclamationMark
  | ExpectOpeningBracketAfterIn
  | RequireInAfterNot gostring


section \<open>The parser\<close>

text \<open>
  A \<^verbatim>\<open>Parser\<close> holds nothing but its lexer, so the state of the parser is the state of
  the lexer. \<^verbatim>\<open>Parser.scan\<close> is named \<open>Parser_scan\<close> here and \<^verbatim>\<open>Parser.next\<close>
  \<open>Parser_next\<close>.
\<close>

type_synonym Parser = Lexer

definition NewParser :: "gostring \<Rightarrow> Parser" where
  "NewParser input = NewLexer input"

definition Parser_scan :: "Parser \<Rightarrow> Token \<times> gostring \<times> Parser" where
  "Parser_scan p = Next p"

lemma read_same_pending:
  "pending s = pending t \<Longrightarrow> read s = read t"
  by (simp add: read_def)

lemma read_Nil:
  "pending s = [] \<Longrightarrow> read s = (eof, \<lparr>pending = [], unreadable = None\<rparr>)"
  by (simp add: read_def)

lemma read_Cons:
  "pending s = ch # rest \<Longrightarrow> read s = (ch, \<lparr>pending = rest, unreadable = Some ch\<rparr>)"
  by (simp add: read_def)

lemma read_unread_pending:
  "read s = (ch, s1) \<Longrightarrow> pending (unread s1) = pending s"
  by (auto simp: read_def unread_def split: list.splits)

lemma read_le:
  "read s = (ch, s1) \<Longrightarrow> length (pending s1) \<le> length (pending s)"
  by (auto simp: read_def split: list.splits)

lemma scanWhitespace_loop_le:
  "length (pending (snd (scanWhitespace_loop b s))) \<le> length (pending s)"
proof (induction b s rule: scanWhitespace_loop.induct)
  case (1 b s)
  obtain ch s1 where r: "read s = (ch, s1)" by (cases "read s")
  show ?case
  proof (cases "ch \<noteq> eof \<and> isWhitespace ch")
    case True
    with 1 [OF r [symmetric]] have "length (pending (snd (scanWhitespace_loop (b @ [ch]) s1))) \<le> length (pending s1)"
      by simp
    with True read_le [OF r] show ?thesis
      by (subst scanWhitespace_loop.simps) (simp add: r)
  next
    case False
    with read_le [OF r] read_unread_pending [OF r] show ?thesis
      by (subst scanWhitespace_loop.simps) (auto simp: r)
  qed
qed

lemma scanIdent_loop_le:
  "length (pending (snd (scanIdent_loop b s))) \<le> length (pending s)"
proof (induction b s rule: scanIdent_loop.induct)
  case (1 b s)
  obtain ch s1 where r: "read s = (ch, s1)" by (cases "read s")
  show ?case
  proof (cases "ch \<noteq> eof \<and> isValidIdentRune ch")
    case True
    with 1 [OF r [symmetric]] have "length (pending (snd (scanIdent_loop (b @ [ch]) s1))) \<le> length (pending s1)"
      by simp
    with True read_le [OF r] show ?thesis
      by (subst scanIdent_loop.simps) (simp add: r)
  next
    case False
    with read_le [OF r] read_unread_pending [OF r] show ?thesis
      by (subst scanIdent_loop.simps) (auto simp: r)
  qed
qed

lemma scanQuotedIdent_loop_le:
  "length (pending (snd (scanQuotedIdent_loop b l s))) \<le> length (pending s)"
proof (induction b l s rule: scanQuotedIdent_loop.induct)
  case (1 b l s)
  obtain ch s1 where r: "read s = (ch, s1)" by (cases "read s")
  show ?case
  proof (cases "ch = eof \<or> (ch = rune_of CHR 0x22 \<and> l \<noteq> rune_of CHR 0x5C)")
    case True
    with read_le [OF r] show ?thesis
      by (subst scanQuotedIdent_loop.simps) (auto simp: r)
  next
    case False
    with 1 [OF r [symmetric]] have "length (pending (snd (scanQuotedIdent_loop (b @ [ch]) ch s1))) \<le> length (pending s1)"
      by simp
    with False read_le [OF r] show ?thesis
      by (subst scanQuotedIdent_loop.simps) (simp add: r)
  qed
qed

lemma eof_not_Whitespace: "\<not> isWhitespace eof"
  by (simp add: isWhitespace_def eof_def)

lemma eof_not_ValidIdentRune: "\<not> isValidIdentRune eof"
  by (simp add: isValidIdentRune_def eof_def)

lemma scanWhitespace_shorter:
  assumes "scanWhitespace s = (tok, lit, s')" and "pending s \<noteq> []"
  shows "length (pending s') < length (pending s)"
proof -
  obtain ch s1 where r: "read s = (ch, s1)" by (cases "read s")
  obtain b s2 where l: "scanWhitespace_loop [ch] s1 = (b, s2)" by (cases "scanWhitespace_loop [ch] s1")
  have "length (pending s1) < length (pending s)"
    using r assms(2) by (auto simp: read_def split: list.splits)
  moreover have "length (pending s2) \<le> length (pending s1)"
    using scanWhitespace_loop_le [of "[ch]" s1] l by simp
  moreover have "s' = s2" using assms(1) r l by (simp add: scanWhitespace_def)
  ultimately show ?thesis by simp
qed

lemma scanIdent_shorter:
  assumes "scanIdent s = (tok, lit, s')" and "pending s \<noteq> []"
  shows "length (pending s') < length (pending s)"
proof -
  obtain ch s1 where r: "read s = (ch, s1)" by (cases "read s")
  obtain b s2 where l: "scanIdent_loop [ch] s1 = (b, s2)" by (cases "scanIdent_loop [ch] s1")
  have "length (pending s1) < length (pending s)"
    using r assms(2) by (auto simp: read_def split: list.splits)
  moreover have "length (pending s2) \<le> length (pending s1)"
    using scanIdent_loop_le [of "[ch]" s1] l by simp
  moreover have "s' = s2" using assms(1) r l by (simp add: scanIdent_def split: if_splits)
  ultimately show ?thesis by simp
qed

lemma scanQuotedIdent_le:
  assumes "scanQuotedIdent s = (tok, lit, s')"
  shows "length (pending s') \<le> length (pending s)"
proof -
  obtain b s1 where l: "scanQuotedIdent_loop [] 0 s = (b, s1)" by (cases "scanQuotedIdent_loop [] 0 s")
  have "length (pending s1) \<le> length (pending s)"
    using scanQuotedIdent_loop_le [of "[]" 0 s] l by simp
  moreover have "s' = s1" using assms l by (simp add: scanQuotedIdent_def)
  ultimately show ?thesis by simp
qed

lemma Next_Nil:
  "pending s = [] \<Longrightarrow> Next s = (EOF, [], \<lparr>pending = [], unreadable = None\<rparr>)"
  by (simp add: Next_def read_Nil eof_not_Whitespace eof_not_ValidIdentRune) (simp add: eof_def)

lemma Next_shorter:
  assumes "Next s = (tok, lit, s')"
  shows "(tok = EOF \<longrightarrow> length (pending s') \<le> length (pending s)) \<and>
         (tok \<noteq> EOF \<longrightarrow> length (pending s') < length (pending s))"
proof (cases "pending s")
  case Nil
  with assms show ?thesis by (auto simp: Next_Nil)
next
  case (Cons ch rest)
  define s1 where "s1 = \<lparr>pending = rest, unreadable = Some ch\<rparr>"
  have r: "read s = (ch, s1)" unfolding s1_def using Cons by (rule read_Cons)
  have u: "pending (unread s1) = pending s" using r by (rule read_unread_pending)
  have ps1: "length (pending s1) < length (pending s)" by (simp add: s1_def Cons)
  obtain ch' s2 where r2: "read s1 = (ch', s2)" by (cases "read s1")
  have l2: "length (pending s2) \<le> length (pending s1)" using r2 by (rule read_le)
  have l3: "length (pending (unread s2)) \<le> length (pending s1)"
    using read_unread_pending [OF r2] by simp
  consider (ws) "isWhitespace ch"
    | (id) "\<not> isWhitespace ch" "isValidIdentRune ch"
    | (qu) "\<not> isWhitespace ch" "\<not> isValidIdentRune ch" "ch = rune_of CHR 0x22"
    | (other) "\<not> isWhitespace ch" "\<not> isValidIdentRune ch" "ch \<noteq> rune_of CHR 0x22"
    by blast
  then show ?thesis
  proof cases
    case ws
    then have "scanWhitespace (unread s1) = (tok, lit, s')" using assms r by (simp add: Next_def)
    from scanWhitespace_shorter [OF this] u Cons show ?thesis by simp
  next
    case id
    then have "scanIdent (unread s1) = (tok, lit, s')" using assms r by (simp add: Next_def)
    from scanIdent_shorter [OF this] u Cons show ?thesis by simp
  next
    case qu
    then have "scanQuotedIdent s1 = (tok, lit, s')" using assms r by (simp add: Next_def)
    from scanQuotedIdent_le [OF this] ps1 show ?thesis by simp
  next
    case other
    then have "s' = s1 \<or> s' = s2 \<or> s' = unread s2"
      using assms r r2 by (auto simp: Next_def split: if_splits)
    with ps1 l2 l3 show ?thesis by auto
  qed
qed

text \<open>
  \<^verbatim>\<open>Parser.next\<close>: scan, and scan again as long as the token is whitespace.
\<close>

function Parser_next :: "Parser \<Rightarrow> Token \<times> gostring \<times> Parser" where
  "Parser_next p =
     (case Parser_scan p of (tok, lit, p1) \<Rightarrow>
        if tok = WS then Parser_next p1 else (tok, lit, p1))"
  by pat_completeness auto
termination
proof (relation "measure (\<lambda>p. length (pending p))", goal_cases)
  case 1
  show ?case by simp
next
  case (2 p x y lit p1)
  then have "Next p = (WS, lit, p1)" by (simp add: Parser_scan_def)
  from Next_shorter [OF this] have "length (pending p1) < length (pending p)" by simp
  then show ?case by simp
qed

declare Parser_next.simps [simp del]

lemma Parser_next_shorter:
  "Parser_next p = (tok, lit, p') \<Longrightarrow>
     tok \<noteq> WS \<and> length (pending p') \<le> length (pending p) \<and>
     (tok \<noteq> EOF \<longrightarrow> length (pending p') < length (pending p))"
proof (induction p rule: Parser_next.induct)
  case (1 p)
  obtain tok1 lit1 p1 where sc: "Parser_scan p = (tok1, lit1, p1)" by (cases "Parser_scan p")
  then have n: "Next p = (tok1, lit1, p1)" by (simp add: Parser_scan_def)
  show ?case
  proof (cases "tok1 = WS")
    case True
    with 1(2) sc have "Parser_next p1 = (tok, lit, p')"
      by (subst (asm) Parser_next.simps) simp
    from 1(1) [OF sc [symmetric] refl True this] Next_shorter [OF n] True show ?thesis by auto
  next
    case False
    with 1(2) sc have "tok = tok1 \<and> p' = p1"
      by (subst (asm) Parser_next.simps) simp
    with False Next_shorter [OF n] show ?thesis by auto
  qed
qed

lemma Parser_next_le:
  "Parser_next p = (tok, lit, p') \<Longrightarrow> length (pending p') \<le> length (pending p)"
  by (simp add: Parser_next_shorter)

definition parseNotEqualRequirement :: "gostring \<Rightarrow> Parser \<Rightarrow> (Requirement \<times> error option) \<times> Parser" where
  "parseNotEqualRequirement key p =
     (case Parser_next p of (tok, lit, p1) \<Rightarrow>
        if tok \<noteq> IDENT then ((zeroRequirement, Some ExpectIdentAfterNotEqual), p1)
        else ((\<lparr>Key = key, Value = lit, Values = [], Operation = OperationNotEquals\<rparr>, None), p1))"

definition parseEqualRequirement :: "gostring \<Rightarrow> Parser \<Rightarrow> (Requirement \<times> error option) \<times> Parser" where
  "parseEqualRequirement key p =
     (case Parser_next p of (tok, lit, p1) \<Rightarrow>
        if tok \<noteq> IDENT then ((zeroRequirement, Some ExpectIdentAfterEqual), p1)
        else ((\<lparr>Key = key, Value = lit, Values = [], Operation = OperationEquals\<rparr>, None), p1))"

definition parseLowerThanRequirement :: "gostring \<Rightarrow> Parser \<Rightarrow> (Requirement \<times> error option) \<times> Parser" where
  "parseLowerThanRequirement key p =
     (case Parser_next p of (tok, lit, p1) \<Rightarrow>
        if tok \<noteq> IDENT then ((zeroRequirement, Some ExpectIdentAfterLowerThan), p1)
        else ((\<lparr>Key = key, Value = lit, Values = [], Operation = OperationLowerThan\<rparr>, None), p1))"

definition parseLowerThanEqualRequirement :: "gostring \<Rightarrow> Parser \<Rightarrow> (Requirement \<times> error option) \<times> Parser" where
  "parseLowerThanEqualRequirement key p =
     (case Parser_next p of (tok, lit, p1) \<Rightarrow>
        if tok \<noteq> IDENT then ((zeroRequirement, Some ExpectIdentAfterLowerThanEqual), p1)
        else ((\<lparr>Key = key, Value = lit, Values = [], Operation = OperationLowerThanEqual\<rparr>, None), p1))"

definition parseGreaterThanRequirement :: "gostring \<Rightarrow> Parser \<Rightarrow> (Requirement \<times> error option) \<times> Parser" where
  "parseGreaterThanRequirement key p =
     (case Parser_next p of (tok, lit, p1) \<Rightarrow>
        if tok \<noteq> IDENT then ((zeroRequirement, Some ExpectIdentAfterGreaterThan), p1)
        else ((\<lparr>Key = key, Value = lit, Values = [], Operation = OperationGreaterThan\<rparr>, None), p1))"

definition parseGreaterThanEqualRequirement :: "gostring \<Rightarrow> Parser \<Rightarrow> (Requirement \<times> error option) \<times> Parser" where
  "parseGreaterThanEqualRequirement key p =
     (case Parser_next p of (tok, lit, p1) \<Rightarrow>
        if tok \<noteq> IDENT then ((zeroRequirement, Some ExpectIdentAfterGreaterThanEqual), p1)
        else ((\<lparr>Key = key, Value = lit, Values = [], Operation = OperationGreaterThanEqual\<rparr>, None), p1))"

text \<open>The loop of \<^verbatim>\<open>parseIdentList\<close>; a failure returns the nil list.\<close>

function parseIdentList_loop :: "gostring list \<Rightarrow> Parser \<Rightarrow> (gostring list \<times> error option) \<times> Parser" where
  "parseIdentList_loop list p =
     (case Parser_next p of (tok, lit, p1) \<Rightarrow>
        if tok = CLOSING_BRACKET then ((list, None), p1)
        else if tok = COMMA then parseIdentList_loop list p1
        else if tok = IDENT then parseIdentList_loop (list @ [lit]) p1
        else (([], Some (UnexpectedTokenInValueList lit)), p1))"
  by pat_completeness auto
termination
proof (relation "measure (\<lambda>(list, p). length (pending p))", goal_cases)
  case 1
  show ?case by simp
next
  case (2 list p x y lit p1)
  then have "Parser_next p = (COMMA, lit, p1)" by simp
  from Parser_next_shorter [OF this] show ?case by simp
next
  case (3 list p x y lit p1)
  then have "Parser_next p = (IDENT, lit, p1)" by simp
  from Parser_next_shorter [OF this] show ?case by simp
qed

declare parseIdentList_loop.simps [simp del]

definition parseIdentList :: "Parser \<Rightarrow> (gostring list \<times> error option) \<times> Parser" where
  "parseIdentList p = parseIdentList_loop [] p"

definition parseNotExistsRequirement :: "Parser \<Rightarrow> (Requirement \<times> error option) \<times> Parser" where
  "parseNotExistsRequirement p =
     (case Parser_next p of (tok, lit, p1) \<Rightarrow>
        if tok \<noteq> IDENT then ((zeroRequirement, Some ExpectIdentAfterExclamationMark), p1)
        else ((\<lparr>Key = lit, Value = [], Values = [], Operation = OperationNotExists\<rparr>, None), p1))"

definition parseInRequirement :: "gostring \<Rightarrow> Parser \<Rightarrow> (Requirement \<times> error option) \<times> Parser" where
  "parseInRequirement key p =
     (let req = \<lparr>Key = key, Value = [], Values = [], Operation = OperationIn\<rparr> in
      case Parser_next p of (tok, lit, p1) \<Rightarrow>
        if tok \<noteq> OPENING_BRACKET then ((req, Some ExpectOpeningBracketAfterIn), p1)
        else (case parseIdentList p1 of ((list, err), p2) \<Rightarrow>
                if err \<noteq> None then ((req, err), p2)
                else ((req\<lparr>Values := list\<rparr>, err), p2)))"

definition parseNotInRequirement :: "gostring \<Rightarrow> Parser \<Rightarrow> (Requirement \<times> error option) \<times> Parser" where
  "parseNotInRequirement key p =
     (case Parser_next p of (tok, lit, p1) \<Rightarrow>
        if tok \<noteq> IN then ((zeroRequirement, Some (RequireInAfterNot lit)), p1)
        else (case parseInRequirement key p1 of ((req, err), p2) \<Rightarrow>
                if err \<noteq> None then ((req, err), p2)
                else ((req\<lparr>Operation := OperationNotIn\<rparr>, None), p2)))"

text \<open>
  The inner switch of \<^verbatim>\<open>Parse\<close>, on the token that follows the key. It leaves either
  \<^verbatim>\<open>req\<close> and \<^verbatim>\<open>err\<close> for the statements after the switch (\<open>Inr\<close>), or, in the
  default case, returns from \<^verbatim>\<open>Parse\<close> at once with an error (\<open>Inl\<close>).
\<close>

definition Parse_switch ::
  "gostring \<Rightarrow> Token \<Rightarrow> gostring \<Rightarrow> Parser \<Rightarrow> error + ((Requirement \<times> error option) \<times> Parser)" where
  "Parse_switch key tok lit p =
     (case tok of
        EQUAL \<Rightarrow> Inr (parseEqualRequirement key p)
      | NOT_EQUAL \<Rightarrow> Inr (parseNotEqualRequirement key p)
      | IN \<Rightarrow> Inr (parseInRequirement key p)
      | LOWER_THAN \<Rightarrow> Inr (parseLowerThanRequirement key p)
      | LOWER_THAN_EQUAL \<Rightarrow> Inr (parseLowerThanEqualRequirement key p)
      | GREATER_THAN \<Rightarrow> Inr (parseGreaterThanRequirement key p)
      | GREATER_THAN_EQUAL \<Rightarrow> Inr (parseGreaterThanEqualRequirement key p)
      | NOT \<Rightarrow> Inr (parseNotInRequirement key p)
      | COMMA \<Rightarrow> Inr ((\<lparr>Key = key, Value = [], Values = [], Operation = OperationExists\<rparr>, None), p)
      | EOF \<Rightarrow> Inr ((\<lparr>Key = key, Value = [], Values = [], Operation = OperationExists\<rparr>, None), p)
      | _ \<Rightarrow> Inl (UnexpectedToken lit))"


lemma parseIdentList_loop_le:
  "parseIdentList_loop list p = (res, p') \<Longrightarrow> length (pending p') \<le> length (pending p)"
proof (induction list p rule: parseIdentList_loop.induct)
  case (1 list p)
  obtain tok lit p1 where n: "Parser_next p = (tok, lit, p1)" by (cases "Parser_next p")
  note le = Parser_next_le [OF n]
  consider (close) "tok = CLOSING_BRACKET" | (comma) "tok = COMMA" | (ident) "tok = IDENT"
    | (other) "tok \<noteq> CLOSING_BRACKET" "tok \<noteq> COMMA" "tok \<noteq> IDENT"
    by blast
  then show ?case
  proof cases
    case close
    with 1(3) n have "p' = p1" by (subst (asm) parseIdentList_loop.simps) simp
    with le show ?thesis by simp
  next
    case comma
    with 1(3) n have "parseIdentList_loop list p1 = (res, p')"
      by (subst (asm) parseIdentList_loop.simps) simp
    from 1(1) [OF n [symmetric] refl _ comma this] comma le show ?thesis by simp
  next
    case ident
    with 1(3) n have "parseIdentList_loop (list @ [lit]) p1 = (res, p')"
      by (subst (asm) parseIdentList_loop.simps) simp
    from 1(2) [OF n [symmetric] refl _ _ ident this] ident le show ?thesis by simp
  next
    case other
    with 1(3) n have "p' = p1" by (subst (asm) parseIdentList_loop.simps) simp
    with le show ?thesis by simp
  qed
qed

lemma parseInRequirement_le:
  assumes "parseInRequirement key p = (res, p')"
  shows "length (pending p') \<le> length (pending p)"
proof -
  obtain tok lit p1 where n: "Parser_next p = (tok, lit, p1)" by (cases "Parser_next p")
  obtain r2 p2 where l: "parseIdentList_loop [] p1 = (r2, p2)" by (cases "parseIdentList_loop [] p1")
  have "p' = p1 \<or> p' = p2"
    using assms n l by (auto simp: parseInRequirement_def parseIdentList_def Let_def split: if_splits prod.splits)
  with Parser_next_le [OF n] parseIdentList_loop_le [OF l] show ?thesis by auto
qed

lemma parseNotInRequirement_le:
  assumes "parseNotInRequirement key p = (res, p')"
  shows "length (pending p') \<le> length (pending p)"
proof -
  obtain tok lit p1 where n: "Parser_next p = (tok, lit, p1)" by (cases "Parser_next p")
  obtain r2 p2 where l: "parseInRequirement key p1 = (r2, p2)" by (cases "parseInRequirement key p1")
  have "p' = p1 \<or> p' = p2"
    using assms n l by (auto simp: parseNotInRequirement_def split: if_splits prod.splits)
  with Parser_next_le [OF n] parseInRequirement_le [OF l] show ?thesis by auto
qed

lemma parseNotExistsRequirement_le:
  "parseNotExistsRequirement p = (res, p') \<Longrightarrow> length (pending p') \<le> length (pending p)"
  by (auto simp: parseNotExistsRequirement_def split: prod.splits if_splits dest: Parser_next_le)

lemma Parse_switch_le:
  assumes "Parse_switch key tok lit p = Inr (res, p')"
  shows "length (pending p') \<le> length (pending p)"
proof (cases tok)
  case IN
  with assms show ?thesis by (simp add: Parse_switch_def parseInRequirement_le)
next
  case NOT
  with assms show ?thesis by (simp add: Parse_switch_def parseNotInRequirement_le)
qed (use assms in \<open>auto simp: Parse_switch_def parseEqualRequirement_def parseNotEqualRequirement_def
      parseLowerThanRequirement_def parseLowerThanEqualRequirement_def
      parseGreaterThanRequirement_def parseGreaterThanEqualRequirement_def
      split: prod.splits if_splits dest: Parser_next_le\<close>)

text \<open>
  The loop of \<^verbatim>\<open>Parse\<close>, with the selector built so far. A token that is neither
  \<^verbatim>\<open>EXCLAMATION_MARK\<close> nor \<^verbatim>\<open>IDENT\<close> matches no case of the outer switch, whose end
  is the end of the loop body: the loop goes on with the next token.
\<close>

function Parse_loop :: "Parser \<Rightarrow> LabelSelector \<Rightarrow> LabelSelector \<times> error option" where
  "Parse_loop p selector =
     (case Parser_next p of (tok, lit, p1) \<Rightarrow>
        if tok = COMMA then Parse_loop p1 selector
        else if tok = EOF then (selector, None)
        else if tok = ILLEGAL then (selector, Some IllegalToken)
        else if tok = EXCLAMATION_MARK then
          (case parseNotExistsRequirement p1 of ((req, err), p2) \<Rightarrow>
             if err \<noteq> None then (selector, err)
             else Parse_loop p2 (selector\<lparr>Requirements := Requirements selector @ [req]\<rparr>))
        else if tok = IDENT then
          (case Parser_next p1 of (tok', lit', p2) \<Rightarrow>
             case Parse_switch lit tok' lit' p2 of
               Inl e \<Rightarrow> (selector, Some e)
             | Inr ((req, err), p3) \<Rightarrow>
                 if err \<noteq> None then (selector, err)
                 else Parse_loop p3 (selector\<lparr>Requirements := Requirements selector @ [req]\<rparr>))
        else Parse_loop p1 selector)"
  by pat_completeness auto
termination
proof (relation "measure (\<lambda>(p, selector). length (pending p))", goal_cases)
  case 1
  show ?case by simp
next
  case (2 p selector x y lit p1)
  then have "Parser_next p = (COMMA, lit, p1)" by simp
  from Parser_next_shorter [OF this] show ?case by simp
next
  case (3 p selector x y lit p1 x' p2 req err)
  then have "Parser_next p = (EXCLAMATION_MARK, lit, p1)"
    and "parseNotExistsRequirement p1 = ((req, err), p2)" by simp_all
  from Parser_next_shorter [OF this(1)] parseNotExistsRequirement_le [OF this(2)]
  show ?case by simp
next
  case (4 p selector x y lit p1 x' y' lit' p2 res x'' p3 req err)
  then have "Parser_next p = (IDENT, lit, p1)" and "Parser_next p1 = (x', lit', p2)"
    and "Parse_switch lit x' lit' p2 = Inr ((req, err), p3)" by simp_all
  from Parser_next_shorter [OF this(1)] Parser_next_le [OF this(2)] Parse_switch_le [OF this(3)]
  show ?case by simp
next
  case (5 p selector x y lit p1)
  then have "Parser_next p = (x, lit, p1)" and "x \<noteq> EOF" by simp_all
  from Parser_next_shorter [OF this(1)] this(2) show ?case by simp
qed

declare Parse_loop.simps [simp del]

definition Parser_Parse :: "Parser \<Rightarrow> LabelSelector \<times> error option" where
  "Parser_Parse p = Parse_loop p \<lparr>Requirements = []\<rparr>"

definition Parse :: "gostring \<Rightarrow> LabelSelector \<times> error option" where
  "Parse input = Parser_Parse (NewParser input)"

definition ParseString :: "gostring \<Rightarrow> LabelSelector \<times> error option" where
  "ParseString str = Parse str"

section \<open>Comparison operators\<close>

lemma Next_token_kinds:
  "fst (Next s) \<in> {WS, IDENT, NOT, IN, EOF, NOT_EQUAL, EXCLAMATION_MARK, EQUAL, COMMA,
                     OPENING_BRACKET, CLOSING_BRACKET, ILLEGAL}"
  by (simp add: Next_def scanWhitespace_def scanIdent_def scanQuotedIdent_def split: prod.splits)

text \<open>
  Claim C1. The input \<^verbatim>\<open>foo >= 5\<close> is said to parse to one \<^verbatim>\<open>GreaterThanEqual\<close>
  requirement, the lexer emitting \<^verbatim>\<open>GREATER_THAN_EQUAL\<close> for \<^verbatim>\<open>>=\<close> and
  \<^verbatim>\<open>GREATER_THAN\<close> for \<^verbatim>\<open>>\<close> (and likewise for \<^verbatim>\<open><\<close>). \<^verbatim>\<open>Lexer.Next\<close> has no case for
  \<^verbatim>\<open>>\<close> or \<^verbatim>\<open><\<close>: both runes fall to the final \<^verbatim>\<open>return ILLEGAL, string(ch)\<close>, and
  \<^verbatim>\<open>Next\<close> produces none of the four comparison tokens (\<open>Next_token_kinds\<close>). On
  \<^verbatim>\<open>foo >= 5\<close> the parser reads the key, then the illegal token, and returns the empty
  selector with the error \<^verbatim>\<open>unexpected token '>'\<close>.
\<close>

theorem Parse_greater_equal_unexpected:
  "ParseString (runes ''foo >= 5'') = (\<lparr>Requirements = []\<rparr>, Some (UnexpectedToken (runes ''>''))) \<and>
   Next (NewLexer (runes ''>= 5'')) =
     (ILLEGAL, runes ''>'', \<lparr>pending = runes ''= 5'', unreadable = Some (rune_of CHR ''>'')\<rparr>) \<and>
   Next (NewLexer (runes ''<= 5'')) =
     (ILLEGAL, runes ''<'', \<lparr>pending = runes ''= 5'', unreadable = Some (rune_of CHR ''<'')\<rparr>)"
  by code_simp

section \<open>Tokens that start no clause\<close>

lemma Parse_loop_drops_token:
  "Parser_next p = (tok, lit, p1) \<Longrightarrow> tok \<notin> {COMMA, EOF, ILLEGAL, EXCLAMATION_MARK, IDENT} \<Longrightarrow>
   Parse_loop p sel = Parse_loop p1 sel"
  by (subst Parse_loop.simps) simp

text \<open>
  Claim C2. A token that starts no clause (a bracket, an operator) at the top of the loop
  is said to make \<^verbatim>\<open>Parse\<close> fail with the \<^verbatim>\<open>unexpected token\<close> error. The outer switch
  of \<^verbatim>\<open>Parse\<close> has cases for \<^verbatim>\<open>EXCLAMATION_MARK\<close> and \<^verbatim>\<open>IDENT\<close> only and no default, so
  any other token is dropped and the loop goes on (\<open>Parse_loop_drops_token\<close>):
  \<^verbatim>\<open>(\<close>, \<^verbatim>\<open>)\<close> and \<^verbatim>\<open>=\<close> each parse to the empty selector without error, and \<^verbatim>\<open>=foo\<close>
  parses like \<^verbatim>\<open>foo\<close>.
\<close>

theorem Parse_skips_leading_tokens:
  "ParseString (runes ''('') = (\<lparr>Requirements = []\<rparr>, None) \<and>
   ParseString (runes '')'') = (\<lparr>Requirements = []\<rparr>, None) \<and>
   ParseString (runes ''='') = (\<lparr>Requirements = []\<rparr>, None) \<and>
   ParseString (runes ''=foo'') =
     (\<lparr>Requirements = [\<lparr>Key = runes ''foo'', Value = [], Values = [], Operation = OperationExists\<rparr>]\<rparr>, None)"
  by code_simp

section \<open>Keys\<close>


section \<open>Errors end the parse\<close>

text \<open>
  The two sub-parsers that call another sub-parser hand its error on as it is.
\<close>

lemma parseNotInRequirement_propagates:
  "Parser_next p = (IN, lit, p1) \<Longrightarrow> parseInRequirement key p1 = ((req, Some e), p2) \<Longrightarrow>
   parseNotInRequirement key p = ((req, Some e), p2)"
  by (simp add: parseNotInRequirement_def)

lemma parseInRequirement_propagates:
  "Parser_next p = (OPENING_BRACKET, lit, p1) \<Longrightarrow> parseIdentList p1 = ((list, Some e), p2) \<Longrightarrow>
   parseInRequirement key p =
     ((\<lparr>Key = key, Value = [], Values = [], Operation = OperationIn\<rparr>, Some e), p2)"
  by (simp add: parseInRequirement_def)

section \<open>What the lexer reads\<close>


lemma unread_Some [simp]:
  "unread \<lparr>pending = rest, unreadable = Some ch\<rparr> = \<lparr>pending = ch # rest, unreadable = None\<rparr>"
  by (simp add: unread_def)

lemma unread_None [simp]:
  "unread \<lparr>pending = rest, unreadable = None\<rparr> = \<lparr>pending = rest, unreadable = None\<rparr>"
  by (simp add: unread_def)

lemma ValidIdentRune_not_eof: "isValidIdentRune ch \<Longrightarrow> ch \<noteq> eof"
  using eof_not_ValidIdentRune by blast

lemma Whitespace_not_eof: "isWhitespace ch \<Longrightarrow> ch \<noteq> eof"
  using eof_not_Whitespace by blast

lemma scanIdent_loop_run:
  assumes "pending s = t @ rest" and "\<forall>c\<in>set t. isValidIdentRune c"
    and "rest = [] \<or> \<not> isValidIdentRune (hd rest) \<and> hd rest \<noteq> eof"
  shows "scanIdent_loop b s = (b @ t, \<lparr>pending = rest, unreadable = None\<rparr>)"
  using assms
proof (induction t arbitrary: b s)
  case Nil
  show ?case
  proof (cases rest)
    case Nil
    with Nil.prems have "pending s = []" by simp
    then show ?thesis using Nil by (subst scanIdent_loop.simps) (simp add: read_Nil)
  next
    case (Cons c cs)
    with Nil.prems have "pending s = c # cs" "\<not> isValidIdentRune c" "c \<noteq> eof" by simp_all
    then show ?thesis using Cons by (subst scanIdent_loop.simps) (simp add: read_Cons)
  qed
next
  case (Cons a t)
  from Cons.prems have p: "pending s = a # (t @ rest)" and a: "isValidIdentRune a" by simp_all
  let ?s1 = "\<lparr>pending = t @ rest, unreadable = Some a\<rparr>"
  have "scanIdent_loop (b @ [a]) ?s1 = ((b @ [a]) @ t, \<lparr>pending = rest, unreadable = None\<rparr>)"
    using Cons.prems by (intro Cons.IH) simp_all
  then show ?case
    using a ValidIdentRune_not_eof [OF a]
    by (subst scanIdent_loop.simps) (simp add: read_Cons [OF p])
qed

lemma scanWhitespace_loop_run:
  assumes "pending s = t @ rest" and "\<forall>c\<in>set t. isWhitespace c"
    and "rest = [] \<or> \<not> isWhitespace (hd rest) \<and> hd rest \<noteq> eof"
  shows "scanWhitespace_loop b s = (b @ t, \<lparr>pending = rest, unreadable = None\<rparr>)"
  using assms
proof (induction t arbitrary: b s)
  case Nil
  show ?case
  proof (cases rest)
    case Nil
    with Nil.prems have "pending s = []" by simp
    then show ?thesis using Nil by (subst scanWhitespace_loop.simps) (simp add: read_Nil)
  next
    case (Cons c cs)
    with Nil.prems have "pending s = c # cs" "\<not> isWhitespace c" "c \<noteq> eof" by simp_all
    then show ?thesis using Cons by (subst scanWhitespace_loop.simps) (simp add: read_Cons)
  qed
next
  case (Cons a t)
  from Cons.prems have p: "pending s = a # (t @ rest)" and a: "isWhitespace a" by simp_all
  let ?s1 = "\<lparr>pending = t @ rest, unreadable = Some a\<rparr>"
  have "scanWhitespace_loop (b @ [a]) ?s1 = ((b @ [a]) @ t, \<lparr>pending = rest, unreadable = None\<rparr>)"
    using Cons.prems by (intro Cons.IH) simp_all
  then show ?case
    using a Whitespace_not_eof [OF a]
    by (subst scanWhitespace_loop.simps) (simp add: read_Cons [OF p])
qed

lemma Whitespace_not_ValidIdentRune: "isWhitespace ch \<Longrightarrow> \<not> isValidIdentRune ch"
  by (auto simp: isWhitespace_def isValidIdentRune_def)

lemma Next_ident_run:
  assumes "pending s = t @ rest" and "t \<noteq> []" and "\<forall>c\<in>set t. isValidIdentRune c"
    and "rest = [] \<or> \<not> isValidIdentRune (hd rest) \<and> hd rest \<noteq> eof"
  shows "Next s =
           (if ToUpper t = runes ''NOT'' then NOT else if ToUpper t = runes ''IN'' then IN else IDENT,
            t, \<lparr>pending = rest, unreadable = None\<rparr>)"
proof -
  from assms(2) obtain a t' where t: "t = a # t'" by (cases t) auto
  with assms have p: "pending s = a # (t' @ rest)" and a: "isValidIdentRune a"
    and t': "\<forall>c\<in>set t'. isValidIdentRune c" by simp_all
  let ?s1 = "\<lparr>pending = t' @ rest, unreadable = Some a\<rparr>"
  have l: "scanIdent_loop [a] ?s1 = ([a] @ t', \<lparr>pending = rest, unreadable = None\<rparr>)"
    using t' assms(4) by (intro scanIdent_loop_run) simp_all
  have "scanIdent \<lparr>pending = a # (t' @ rest), unreadable = None\<rparr> =
          (if ToUpper t = runes ''NOT'' then NOT else if ToUpper t = runes ''IN'' then IN else IDENT,
           t, \<lparr>pending = rest, unreadable = None\<rparr>)"
    using l by (simp add: scanIdent_def read_Cons t)
  moreover have "\<not> isWhitespace a" using a Whitespace_not_ValidIdentRune by blast
  ultimately show ?thesis using a by (simp add: Next_def read_Cons [OF p])
qed

lemma Next_whitespace_run:
  assumes "pending s = t @ rest" and "t \<noteq> []" and "\<forall>c\<in>set t. isWhitespace c"
    and "rest = [] \<or> \<not> isWhitespace (hd rest) \<and> hd rest \<noteq> eof"
  shows "Next s = (WS, t, \<lparr>pending = rest, unreadable = None\<rparr>)"
proof -
  from assms(2) obtain a t' where t: "t = a # t'" by (cases t) auto
  with assms have p: "pending s = a # (t' @ rest)" and a: "isWhitespace a"
    and t': "\<forall>c\<in>set t'. isWhitespace c" by simp_all
  let ?s1 = "\<lparr>pending = t' @ rest, unreadable = Some a\<rparr>"
  have l: "scanWhitespace_loop [a] ?s1 = ([a] @ t', \<lparr>pending = rest, unreadable = None\<rparr>)"
    using t' assms(4) by (intro scanWhitespace_loop_run) simp_all
  have "scanWhitespace \<lparr>pending = a # (t' @ rest), unreadable = None\<rparr> =
          (WS, t, \<lparr>pending = rest, unreadable = None\<rparr>)"
    using l by (simp add: scanWhitespace_def read_Cons t)
  then show ?thesis using a by (simp add: Next_def read_Cons [OF p])
qed

lemma Next_same_pending:
  "pending s = pending t \<Longrightarrow> Next s = Next t"
  by (simp add: Next_def read_same_pending [of s t])

lemma Parser_next_same_pending:
  assumes "pending s = pending t"
  shows "Parser_next s = Parser_next t"
  by (subst Parser_next.simps, subst (2) Parser_next.simps)
     (simp add: Parser_scan_def Next_same_pending [OF assms])

lemma Parse_loop_same_pending:
  assumes "pending s = pending t"
  shows "Parse_loop s sel = Parse_loop t sel"
  by (subst Parse_loop.simps, subst (2) Parse_loop.simps)
     (simp add: Parser_next_same_pending [OF assms])


lemma scanIdent_loop_text:
  "fst (scanIdent_loop b s) = b @ takeWhile isValidIdentRune (pending s)"
proof (induction "pending s" arbitrary: b s)
  case Nil
  then have "pending s = []" by simp
  then show ?case by (subst scanIdent_loop.simps) (simp add: read_Nil)
next
  case (Cons c cs)
  then have p: "pending s = c # cs" by simp
  let ?s1 = "\<lparr>pending = cs, unreadable = Some c\<rparr>"
  have "fst (scanIdent_loop (b @ [c]) ?s1) = (b @ [c]) @ takeWhile isValidIdentRune (pending ?s1)"
    by (rule Cons(1)) simp
  then show ?case
    using eof_not_ValidIdentRune
    by (subst scanIdent_loop.simps) (auto simp: read_Cons [OF p] p)
qed

lemma upper_N: "(if 97 \<le> z \<and> z \<le> 122 then z - 32 else z) = (78::nat) \<longleftrightarrow> z = 78 \<or> z = 110"
  by auto

lemma upper_O: "(if 97 \<le> z \<and> z \<le> 122 then z - 32 else z) = (79::nat) \<longleftrightarrow> z = 79 \<or> z = 111"
  by auto

lemma upper_T: "(if 97 \<le> z \<and> z \<le> 122 then z - 32 else z) = (84::nat) \<longleftrightarrow> z = 84 \<or> z = 116"
  by auto

lemma upper_I: "(if 97 \<le> z \<and> z \<le> 122 then z - 32 else z) = (73::nat) \<longleftrightarrow> z = 73 \<or> z = 105"
  by auto

lemma ToUpper_NOT:
  "ToUpper t = runes ''NOT'' \<longleftrightarrow>
     t \<in> runes ` {''NOT'', ''NOt'', ''NoT'', ''Not'', ''nOT'', ''nOt'', ''noT'', ''not''}"
proof -
  have "ToUpper t = runes ''NOT'' \<longleftrightarrow>
          (\<exists>a b c. t = [a, b, c] \<and> (a = 78 \<or> a = 110) \<and> (b = 79 \<or> b = 111) \<and> (c = 84 \<or> c = 116))"
    by (simp add: ToUpper_def runes_def map_eq_Cons_conv upper_N upper_O upper_T) blast
  also have "\<dots> \<longleftrightarrow> t \<in> runes ` {''NOT'', ''NOt'', ''NoT'', ''Not'', ''nOT'', ''nOt'', ''noT'', ''not''}"
    by (simp add: runes_def) blast
  finally show ?thesis .
qed

lemma ToUpper_IN:
  "ToUpper t = runes ''IN'' \<longleftrightarrow> t \<in> runes ` {''IN'', ''In'', ''iN'', ''in''}"
proof -
  have "ToUpper t = runes ''IN'' \<longleftrightarrow> (\<exists>a b. t = [a, b] \<and> (a = 73 \<or> a = 105) \<and> (b = 78 \<or> b = 110))"
    by (simp add: ToUpper_def runes_def map_eq_Cons_conv upper_I upper_N) blast
  also have "\<dots> \<longleftrightarrow> t \<in> runes ` {''IN'', ''In'', ''iN'', ''in''}"
    by (simp add: runes_def) blast
  finally show ?thesis .
qed

lemma scanIdent_same_pending:
  "pending s = pending t \<Longrightarrow> scanIdent s = scanIdent t"
  by (simp add: scanIdent_def read_same_pending [of s t])

section \<open>Keywords\<close>

text \<open>
  Claim C7. \<^verbatim>\<open>scanIdent\<close> is entered on a rune of \<open>isValidIdentRune\<close>. The literal it
  returns is the run of such runes at the head of the input, in its original case,
  whatever the token; the token is \<^verbatim>\<open>NOT\<close> when the run is one of the eight spellings of
  \<^verbatim>\<open>not\<close> in upper and lower case, \<^verbatim>\<open>IN\<close> when it is one of the four spellings of
  \<^verbatim>\<open>in\<close>, and \<^verbatim>\<open>IDENT\<close> otherwise. \<^verbatim>\<open>Next\<close> returns what \<^verbatim>\<open>scanIdent\<close> returns.
\<close>

theorem scanIdent_keyword_or_original:
  assumes "pending s = ch # rest" and "isValidIdentRune ch"
  shows "\<exists>s'. scanIdent s =
           (if takeWhile isValidIdentRune (pending s) \<in>
                 runes ` {''NOT'', ''NOt'', ''NoT'', ''Not'', ''nOT'', ''nOt'', ''noT'', ''not''} then NOT
            else if takeWhile isValidIdentRune (pending s) \<in> runes ` {''IN'', ''In'', ''iN'', ''in''} then IN
            else IDENT,
            takeWhile isValidIdentRune (pending s), s') \<and>
         Next s = scanIdent s"
proof -
  let ?s1 = "\<lparr>pending = rest, unreadable = Some ch\<rparr>"
  obtain b s2 where l: "scanIdent_loop [ch] ?s1 = (b, s2)" by (cases "scanIdent_loop [ch] ?s1")
  have b: "b = takeWhile isValidIdentRune (pending s)"
    using scanIdent_loop_text [of "[ch]" ?s1] l assms by simp
  have "scanIdent s =
          (if ToUpper b = runes ''NOT'' then NOT else if ToUpper b = runes ''IN'' then IN else IDENT, b, s2)"
    using l by (simp add: scanIdent_def read_Cons [OF assms(1)])
  then have 1: "scanIdent s =
          (if b \<in> runes ` {''NOT'', ''NOt'', ''NoT'', ''Not'', ''nOT'', ''nOt'', ''noT'', ''not''} then NOT
           else if b \<in> runes ` {''IN'', ''In'', ''iN'', ''in''} then IN else IDENT, b, s2)"
    by (simp only: ToUpper_NOT ToUpper_IN)
  have "\<not> isWhitespace ch" using assms(2) Whitespace_not_ValidIdentRune by blast
  then have "Next s = scanIdent \<lparr>pending = ch # rest, unreadable = None\<rparr>"
    using assms(2) by (simp add: Next_def read_Cons [OF assms(1)])
  also have "\<dots> = scanIdent s" by (rule scanIdent_same_pending) (simp add: assms(1))
  finally have 2: "Next s = scanIdent s" .
  from 1 2 show ?thesis unfolding b by blast
qed


theorem scanIdent_keyword_or_original_witness:
  "\<exists>s'. Next (NewLexer (runes ''NoT in'')) = (NOT, runes ''NoT'', s')"
proof -
  let ?s = "NewLexer (runes ''NoT in'')"
  have p: "pending ?s = rune_of CHR ''N'' # runes ''oT in''"
    by (simp add: NewLexer_def runes_def)
  have v: "isValidIdentRune (rune_of CHR ''N'')"
    by (simp add: isValidIdentRune_def)
  have t: "takeWhile isValidIdentRune (pending ?s) = runes ''NoT''"
    by code_simp
  have m: "runes ''NoT'' \<in> runes ` {''NOT'', ''NOt'', ''NoT'', ''Not'', ''nOT'', ''nOt'', ''noT'', ''not''}"
    by blast
  from scanIdent_keyword_or_original [OF p v] show ?thesis
    unfolding t using m by auto
qed

section \<open>Quoted identifiers\<close>

lemma scanQuotedIdent_loop_spec:
  "scanQuotedIdent_loop b l s = (lit, s') \<Longrightarrow>
   \<exists>t rest. lit = b @ t \<and> pending s = t @ rest \<and> pending s' = drop 1 rest \<and> eof \<notin> set t \<and>
     (rest = [] \<or> hd rest = eof \<or> hd rest = rune_of CHR 0x22 \<and> last (l # t) \<noteq> rune_of CHR 0x5C) \<and>
     (\<forall>i<length t. t ! i = rune_of CHR 0x22 \<longrightarrow> (l # t) ! i = rune_of CHR 0x5C)"
proof (induction "pending s" arbitrary: b l s)
  case Nil
  then have "pending s = []" by simp
  then have "scanQuotedIdent_loop b l s = (b, \<lparr>pending = [], unreadable = None\<rparr>)"
    by (subst scanQuotedIdent_loop.simps) (simp add: read_Nil)
  with Nil(2) have "lit = b" "pending s' = []" by auto
  with \<open>pending s = []\<close> show ?case by simp
next
  case (Cons c cs)
  then have p: "pending s = c # cs" by simp
  let ?s1 = "\<lparr>pending = cs, unreadable = Some c\<rparr>"
  have step: "scanQuotedIdent_loop b l s =
     (if c = eof \<or> (c = rune_of CHR 0x22 \<and> l \<noteq> rune_of CHR 0x5C) then (b, ?s1)
      else scanQuotedIdent_loop (b @ [c]) c ?s1)"
    by (subst scanQuotedIdent_loop.simps) (simp add: read_Cons [OF p])
  show ?case
  proof (cases "c = eof \<or> (c = rune_of CHR 0x22 \<and> l \<noteq> rune_of CHR 0x5C)")
    case True
    with Cons(3) step have "lit = b" "s' = ?s1" by (auto split: if_splits)
    with True p have "lit = b @ [] \<and> pending s = [] @ (c # cs) \<and> pending s' = drop 1 (c # cs) \<and> eof \<notin> set [] \<and>
       (c # cs = [] \<or> hd (c # cs) = eof \<or> hd (c # cs) = rune_of CHR 0x22 \<and> last (l # []) \<noteq> rune_of CHR 0x5C) \<and>
       (\<forall>i<length ([]::rune list). ([]::rune list) ! i = rune_of CHR 0x22 \<longrightarrow> (l # []) ! i = rune_of CHR 0x5C)"
      by auto
    then show ?thesis by blast
  next
    case False
    with Cons(3) step have "scanQuotedIdent_loop (b @ [c]) c ?s1 = (lit, s')"
      by (auto split: if_splits)
    from Cons(1) [OF _ this] obtain t rest where t:
      "lit = (b @ [c]) @ t" "cs = t @ rest" "pending s' = drop 1 rest" "eof \<notin> set t"
      "rest = [] \<or> hd rest = eof \<or> hd rest = rune_of CHR 0x22 \<and> last (c # t) \<noteq> rune_of CHR 0x5C"
      "\<forall>i<length t. t ! i = rune_of CHR 0x22 \<longrightarrow> (c # t) ! i = rune_of CHR 0x5C"
      by auto
    have q: "\<forall>i<length (c # t). (c # t) ! i = rune_of CHR 0x22 \<longrightarrow> (l # c # t) ! i = rune_of CHR 0x5C"
    proof (intro allI impI)
      fix i assume "i < length (c # t)" "(c # t) ! i = rune_of CHR 0x22"
      then show "(l # c # t) ! i = rune_of CHR 0x5C"
        using False t(6) by (cases i) auto
    qed
    have "lit = b @ (c # t) \<and> pending s = (c # t) @ rest \<and> pending s' = drop 1 rest \<and> eof \<notin> set (c # t) \<and>
       (rest = [] \<or> hd rest = eof \<or> hd rest = rune_of CHR 0x22 \<and> last (l # c # t) \<noteq> rune_of CHR 0x5C)"
      using t False p by auto
    with q show ?thesis by blast
  qed
qed

lemma scanQuotedIdent_verbatim:
  assumes "scanQuotedIdent s = (tok, lit, s')"
  shows "tok = IDENT \<and>
         (\<exists>rest. pending s = lit @ rest \<and> pending s' = drop 1 rest \<and>
            (rest = [] \<or> hd rest = eof \<or>
             hd rest = rune_of CHR 0x22 \<and> (lit = [] \<or> last lit \<noteq> rune_of CHR 0x5C))) \<and>
         eof \<notin> set lit \<and>
         (\<forall>i<length lit. lit ! i = rune_of CHR 0x22 \<longrightarrow> 0 < i \<and> lit ! (i - 1) = rune_of CHR 0x5C)"
proof -
  from assms have tok: "tok = IDENT" and l: "scanQuotedIdent_loop [] 0 s = (lit, s')"
    by (auto simp: scanQuotedIdent_def split: prod.splits)
  from scanQuotedIdent_loop_spec [OF l] obtain rest where r:
    "pending s = lit @ rest" "pending s' = drop 1 rest" "eof \<notin> set lit"
    "rest = [] \<or> hd rest = eof \<or> hd rest = rune_of CHR 0x22 \<and> last (0 # lit) \<noteq> rune_of CHR 0x5C"
    "\<forall>i<length lit. lit ! i = rune_of CHR 0x22 \<longrightarrow> (0 # lit) ! i = rune_of CHR 0x5C"
    by auto
  have a: "rest = [] \<or> hd rest = eof \<or>
           hd rest = rune_of CHR 0x22 \<and> (lit = [] \<or> last lit \<noteq> rune_of CHR 0x5C)"
    using r(4) by (cases "lit = []") auto
  have b: "\<forall>i<length lit. lit ! i = rune_of CHR 0x22 \<longrightarrow> 0 < i \<and> lit ! (i - 1) = rune_of CHR 0x5C"
  proof (intro allI impI)
    fix i assume "i < length lit" "lit ! i = rune_of CHR 0x22"
    with r(5) have "(0 # lit) ! i = rune_of CHR 0x5C" by blast
    then show "0 < i \<and> lit ! (i - 1) = rune_of CHR 0x5C" by (cases i) auto
  qed
  from tok r(1,2,3) a b show ?thesis by blast
qed


lemma quote_not_ident: "\<not> isWhitespace (rune_of CHR 0x22)" "\<not> isValidIdentRune (rune_of CHR 0x22)"
  by (simp_all add: isWhitespace_def isValidIdentRune_def)

text \<open>
  Claim C5, as stated: the literal runs to the first double quote that does not follow a
  backslash, or to the end of the input. The lexer reads the end of the input as the rune
  0 (\<open>eof\<close>), and so takes a rune 0 inside the quotes for the end of the input: the
  literal of \<^verbatim>\<open>"a\<close>, rune 0, \<^verbatim>\<open>b"\<close> is \<^verbatim>\<open>a\<close>, and the lexer goes on at \<^verbatim>\<open>b"\<close>.
\<close>

theorem Next_quoted_stops_at_NUL:
  "Next (NewLexer [rune_of CHR 0x22, rune_of CHR ''a'', 0, rune_of CHR ''b'', rune_of CHR 0x22]) =
     (IDENT, runes ''a'', \<lparr>pending = [rune_of CHR ''b'', rune_of CHR 0x22], unreadable = Some 0\<rparr>)"
  by code_simp

text \<open>
  Claim C5, amended. When the input starts with a double quote, \<^verbatim>\<open>Next\<close> returns an
  \<^verbatim>\<open>IDENT\<close> whose literal \<open>lit\<close> is a prefix of the input after that quote, rune for
  rune, so a backslash before a quote stays in the literal. The prefix ends at the first
  of: the end of the input (nothing is left), a rune 0 (\<open>eof\<close>, which \<^verbatim>\<open>read\<close> also
  returns at the end of the input), or a quote that does not follow a backslash; that
  rune is consumed and the lexer goes on after it. Before that point there is no rune 0
  and every quote follows a backslash. No case returns an error: an input that ends
  inside the literal gives the \<^verbatim>\<open>IDENT\<close> read so far.
\<close>

theorem Next_quoted_verbatim:
  assumes "pending s = rune_of CHR 0x22 # input" and "Next s = (tok, lit, s')"
  shows "tok = IDENT \<and>
         (\<exists>rest. input = lit @ rest \<and> pending s' = drop 1 rest \<and>
            (rest = [] \<or> hd rest = eof \<or>
             hd rest = rune_of CHR 0x22 \<and> (lit = [] \<or> last lit \<noteq> rune_of CHR 0x5C))) \<and>
         eof \<notin> set lit \<and>
         (\<forall>i<length lit. lit ! i = rune_of CHR 0x22 \<longrightarrow> 0 < i \<and> lit ! (i - 1) = rune_of CHR 0x5C)"
proof -
  have "Next s = scanQuotedIdent \<lparr>pending = input, unreadable = Some (rune_of CHR 0x22)\<rparr>"
    using quote_not_ident by (simp add: Next_def read_Cons [OF assms(1)])
  with assms(2) have "scanQuotedIdent \<lparr>pending = input, unreadable = Some (rune_of CHR 0x22)\<rparr> = (tok, lit, s')"
    by simp
  from scanQuotedIdent_verbatim [OF this] show ?thesis by simp
qed

theorem Next_quoted_verbatim_witness:
  "Next (NewLexer (runes [CHR 0x22, CHR ''a'', CHR 0x5C, CHR 0x22, CHR ''b'', CHR 0x22, CHR '' '', CHR ''c''])) =
     (IDENT, runes [CHR ''a'', CHR 0x5C, CHR 0x22, CHR ''b''],
      \<lparr>pending = runes '' c'', unreadable = Some (rune_of CHR 0x22)\<rparr>) \<and>
   runes [CHR ''a'', CHR 0x5C, CHR 0x22, CHR ''b''] ! 2 = rune_of CHR 0x22 \<and>
   runes [CHR ''a'', CHR 0x5C, CHR 0x22, CHR ''b''] ! (2 - 1) = rune_of CHR 0x5C \<and>
   Next (NewLexer (runes [CHR 0x22, CHR ''a'', CHR '' '', CHR ''b''])) =
     (IDENT, runes ''a b'', \<lparr>pending = [], unreadable = None\<rparr>)"
proof -
  let ?s = "NewLexer (runes [CHR 0x22, CHR ''a'', CHR 0x5C, CHR 0x22, CHR ''b'', CHR 0x22, CHR '' '', CHR ''c''])"
  let ?lit = "runes [CHR ''a'', CHR 0x5C, CHR 0x22, CHR ''b'']"
  have p: "pending ?s = rune_of CHR 0x22 # runes [CHR ''a'', CHR 0x5C, CHR 0x22, CHR ''b'', CHR 0x22, CHR '' '', CHR ''c'']"
    by (simp add: NewLexer_def runes_def)
  have n: "Next ?s = (IDENT, ?lit, \<lparr>pending = runes '' c'', unreadable = Some (rune_of CHR 0x22)\<rparr>)"
    by code_simp
  from Next_quoted_verbatim [OF p n]
  have "\<forall>i<length ?lit. ?lit ! i = rune_of CHR 0x22 \<longrightarrow> 0 < i \<and> ?lit ! (i - 1) = rune_of CHR 0x5C"
    by blast
  moreover have "2 < length ?lit" "?lit ! 2 = rune_of CHR 0x22" by (simp_all add: runes_def)
  ultimately have "?lit ! (2 - 1) = rune_of CHR 0x5C" by blast
  moreover have "Next (NewLexer (runes [CHR 0x22, CHR ''a'', CHR '' '', CHR ''b''])) =
     (IDENT, runes ''a b'', \<lparr>pending = [], unreadable = None\<rparr>)"
    by code_simp
  ultimately show ?thesis using n \<open>?lit ! 2 = rune_of CHR 0x22\<close> by simp
qed

section \<open>Clauses\<close>

lemma read_record_Cons [simp]:
  "read \<lparr>pending = ch # rest, unreadable = u\<rparr> = (ch, \<lparr>pending = rest, unreadable = Some ch\<rparr>)"
  by (simp add: read_def)

lemma read_record_Nil [simp]:
  "read \<lparr>pending = [], unreadable = u\<rparr> = (eof, \<lparr>pending = [], unreadable = None\<rparr>)"
  by (simp add: read_def)

lemma Parser_next_token:
  "Next s = (tok, lit, s') \<Longrightarrow> tok \<noteq> WS \<Longrightarrow> Parser_next s = (tok, lit, s')"
  by (subst Parser_next.simps) (simp add: Parser_scan_def)

lemma Parser_next_skip:
  "Next s = (WS, lit, s') \<Longrightarrow> Parser_next s = Parser_next s'"
  by (subst Parser_next.simps) (simp add: Parser_scan_def)

lemma Parse_loop_comma:
  "Parser_next p = (COMMA, lit, p1) \<Longrightarrow> Parse_loop p sel = Parse_loop p1 sel"
  by (subst Parse_loop.simps) simp

lemma Parse_loop_eof:
  "Parser_next p = (EOF, lit, p1) \<Longrightarrow> Parse_loop p sel = (sel, None)"
  by (subst Parse_loop.simps) simp

lemma Parse_loop_ident:
  "Parser_next p = (IDENT, key, p1) \<Longrightarrow> Parser_next p1 = (tok', lit', p2) \<Longrightarrow>
   Parse_switch key tok' lit' p2 = Inr ((req, None), p3) \<Longrightarrow>
   Parse_loop p sel = Parse_loop p3 (sel\<lparr>Requirements := Requirements sel @ [req]\<rparr>)"
  by (subst Parse_loop.simps) simp

lemma Parse_loop_Nil:
  "pending p = [] \<Longrightarrow> Parse_loop p sel = (sel, None)"
  by (rule Parse_loop_eof [OF Parser_next_token [OF Next_Nil]]) simp_all

text \<open>
  The texts that \<^verbatim>\<open>scanIdent\<close> returns as \<^verbatim>\<open>IDENT\<close>: a non-empty run of runes of
  \<open>isValidIdentRune\<close> that is neither of the two keywords.
\<close>

definition bareIdentifier :: "gostring \<Rightarrow> bool" where
  "bareIdentifier t \<longleftrightarrow>
     t \<noteq> [] \<and> (\<forall>c\<in>set t. isValidIdentRune c) \<and> ToUpper t \<noteq> runes ''NOT'' \<and> ToUpper t \<noteq> runes ''IN''"

lemma Parser_next_bareIdentifier:
  assumes "bareIdentifier t" and "pending s = t @ rest"
    and "rest = [] \<or> \<not> isValidIdentRune (hd rest) \<and> hd rest \<noteq> eof"
  shows "Parser_next s = (IDENT, t, \<lparr>pending = rest, unreadable = None\<rparr>)"
proof -
  from assms(1) have "t \<noteq> []" "\<forall>c\<in>set t. isValidIdentRune c"
    "ToUpper t \<noteq> runes ''NOT''" "ToUpper t \<noteq> runes ''IN''"
    by (simp_all add: bareIdentifier_def)
  with Next_ident_run [OF assms(2) this(1,2) assms(3)]
  have "Next s = (IDENT, t, \<lparr>pending = rest, unreadable = None\<rparr>)" by simp
  then show ?thesis by (rule Parser_next_token) simp
qed

lemma equals_not_ident:
  "\<not> isWhitespace (rune_of CHR ''='')" "\<not> isValidIdentRune (rune_of CHR ''='')" "rune_of CHR ''='' \<noteq> eof"
  by (simp_all add: isWhitespace_def isValidIdentRune_def eof_def)

lemma Next_equal_single:
  assumes "pending s = rune_of CHR ''='' # c # rest" and "c \<noteq> rune_of CHR ''=''"
  shows "Next s = (EQUAL, [c], \<lparr>pending = c # rest, unreadable = None\<rparr>)"
  using assms(2) equals_not_ident
  by (simp add: Next_def read_Cons [OF assms(1)] eof_def)

lemma Next_equal_double:
  assumes "pending s = rune_of CHR ''='' # rune_of CHR ''='' # rest"
  shows "Next s = (EQUAL, runes ''=='', \<lparr>pending = rest, unreadable = Some (rune_of CHR ''='')\<rparr>)"
  using equals_not_ident
  by (simp add: Next_def read_Cons [OF assms(1)] eof_def runes_def)

lemma bareIdentifier_key: "bareIdentifier (runes ''key'')"
  by (simp add: bareIdentifier_def runes_def isValidIdentRune_def ToUpper_def)

lemma bareIdentifier_value: "bareIdentifier (runes ''value'')"
  by (simp add: bareIdentifier_def runes_def isValidIdentRune_def ToUpper_def)

lemma scanQuotedIdent_loop_run:
  assumes "pending s = q @ rune_of CHR 0x22 # rest" and "eof \<notin> set q"
    and "\<forall>i<length q. q ! i = rune_of CHR 0x22 \<longrightarrow> (l # q) ! i = rune_of CHR 0x5C"
    and "last (l # q) \<noteq> rune_of CHR 0x5C"
  shows "scanQuotedIdent_loop b l s =
           (b @ q, \<lparr>pending = rest, unreadable = Some (rune_of CHR 0x22)\<rparr>)"
  using assms
proof (induction q arbitrary: b l s)
  case Nil
  then have p: "pending s = rune_of CHR 0x22 # rest" and l: "l \<noteq> rune_of CHR 0x5C" by simp_all
  show ?case using l by (subst scanQuotedIdent_loop.simps) (simp add: read_Cons [OF p])
next
  case (Cons c q)
  from Cons.prems have p: "pending s = c # (q @ rune_of CHR 0x22 # rest)" and c: "c \<noteq> eof" by auto
  from Cons.prems(3) have c0: "c = rune_of CHR 0x22 \<longrightarrow> l = rune_of CHR 0x5C" by auto
  let ?s1 = "\<lparr>pending = q @ rune_of CHR 0x22 # rest, unreadable = Some c\<rparr>"
  have q: "\<forall>i<length q. q ! i = rune_of CHR 0x22 \<longrightarrow> (c # q) ! i = rune_of CHR 0x5C"
  proof (intro allI impI)
    fix i assume "i < length q" "q ! i = rune_of CHR 0x22"
    with Cons.prems(3) have "(l # c # q) ! Suc i = rune_of CHR 0x5C" by auto
    then show "(c # q) ! i = rune_of CHR 0x5C" by simp
  qed
  have "scanQuotedIdent_loop (b @ [c]) c ?s1 =
          ((b @ [c]) @ q, \<lparr>pending = rest, unreadable = Some (rune_of CHR 0x22)\<rparr>)"
    using Cons.prems(2,4) q by (intro Cons.IH) simp_all
  then show ?case
    using c c0 by (subst scanQuotedIdent_loop.simps) (auto simp: read_Cons [OF p])
qed

text \<open>
  The texts between two double quotes that the lexer reads as one quoted identifier: no
  rune \<open>eof\<close>, every double quote after a backslash, and no backslash at the end (the
  closing quote would not close).
\<close>

definition quotedText :: "gostring \<Rightarrow> bool" where
  "quotedText q \<longleftrightarrow>
     eof \<notin> set q \<and>
     (\<forall>i<length q. q ! i = rune_of CHR 0x22 \<longrightarrow> 0 < i \<and> q ! (i - 1) = rune_of CHR 0x5C) \<and>
     (q = [] \<or> last q \<noteq> rune_of CHR 0x5C)"

text \<open>
  \<open>writtenIdentifier src lit\<close>: \<open>src\<close> is how an identifier with the literal \<open>lit\<close> is written,
  bare or between double quotes.
\<close>

definition writtenIdentifier :: "gostring \<Rightarrow> gostring \<Rightarrow> bool" where
  "writtenIdentifier src lit \<longleftrightarrow>
     bareIdentifier lit \<and> src = lit \<or>
     quotedText lit \<and> src = rune_of CHR 0x22 # lit @ [rune_of CHR 0x22]"

lemma Next_quoted_run:
  assumes "pending s = rune_of CHR 0x22 # q @ rune_of CHR 0x22 # rest" and "quotedText q"
  shows "Next s = (IDENT, q, \<lparr>pending = rest, unreadable = Some (rune_of CHR 0x22)\<rparr>)"
proof -
  let ?s1 = "\<lparr>pending = q @ rune_of CHR 0x22 # rest, unreadable = Some (rune_of CHR 0x22)\<rparr>"
  from assms(2) have e: "eof \<notin> set q"
    and i: "\<forall>i<length q. q ! i = rune_of CHR 0x22 \<longrightarrow> 0 < i \<and> q ! (i - 1) = rune_of CHR 0x5C"
    and l: "q = [] \<or> last q \<noteq> rune_of CHR 0x5C"
    by (simp_all add: quotedText_def)
  have i': "\<forall>i<length q. q ! i = rune_of CHR 0x22 \<longrightarrow> (0 # q) ! i = rune_of CHR 0x5C"
  proof (intro allI impI)
    fix j assume "j < length q" "q ! j = rune_of CHR 0x22"
    with i have "0 < j \<and> q ! (j - 1) = rune_of CHR 0x5C" by blast
    then show "(0 # q) ! j = rune_of CHR 0x5C" by (cases j) auto
  qed
  have l': "last (0 # q) \<noteq> rune_of CHR 0x5C" using l by auto
  have "scanQuotedIdent_loop [] 0 ?s1 = ([] @ q, \<lparr>pending = rest, unreadable = Some (rune_of CHR 0x22)\<rparr>)"
    using e i' l' by (intro scanQuotedIdent_loop_run) simp_all
  then have "scanQuotedIdent ?s1 = (IDENT, q, \<lparr>pending = rest, unreadable = Some (rune_of CHR 0x22)\<rparr>)"
    by (simp add: scanQuotedIdent_def)
  then show ?thesis
    using quote_not_ident by (simp add: Next_def read_Cons [OF assms(1)])
qed

lemma Parser_next_writtenIdentifier:
  assumes "writtenIdentifier src lit" and "pending s = src @ rest"
    and "rest = [] \<or> \<not> isValidIdentRune (hd rest) \<and> hd rest \<noteq> eof"
  shows "\<exists>s'. Parser_next s = (IDENT, lit, s') \<and> pending s' = rest"
proof (cases "bareIdentifier lit \<and> src = lit")
  case True
  with Parser_next_bareIdentifier [of lit s rest] assms(2,3) show ?thesis by simp
next
  case False
  with assms(1) have q: "quotedText lit" and src: "src = rune_of CHR 0x22 # lit @ [rune_of CHR 0x22]"
    by (auto simp: writtenIdentifier_def)
  from assms(2) src have "pending s = rune_of CHR 0x22 # lit @ rune_of CHR 0x22 # rest" by simp
  from Next_quoted_run [OF this q] have "Parser_next s =
      (IDENT, lit, \<lparr>pending = rest, unreadable = Some (rune_of CHR 0x22)\<rparr>)"
    by (rule Parser_next_token) simp
  then show ?thesis by simp
qed

lemma writtenIdentifier_head:
  assumes "writtenIdentifier src lit"
  shows "src \<noteq> [] \<and> hd src \<noteq> rune_of CHR ''=''"
proof (cases "bareIdentifier lit \<and> src = lit")
  case True
  then have "src \<noteq> []" "isValidIdentRune (hd src)" by (auto simp: bareIdentifier_def)
  with equals_not_ident(2) show ?thesis by auto
next
  case False
  with assms have "src = rune_of CHR 0x22 # lit @ [rune_of CHR 0x22]" by (auto simp: writtenIdentifier_def)
  then show ?thesis by simp
qed

lemma parseEqualRequirement_writtenIdentifier:
  assumes "writtenIdentifier src v" and "pending p = src"
  shows "\<exists>p'. parseEqualRequirement key p =
           ((\<lparr>Key = key, Value = v, Values = [], Operation = OperationEquals\<rparr>, None), p') \<and>
         pending p' = []"
proof -
  from Parser_next_writtenIdentifier [OF assms(1), of p "[]"] assms(2)
  obtain p' where "Parser_next p = (IDENT, v, p')" "pending p' = []" by auto
  then show ?thesis by (simp add: parseEqualRequirement_def)
qed

text \<open>
  Claim C10. For identifiers \<open>key\<close> and \<open>val\<close>, written bare or between double quotes,
  the inputs \<^verbatim>\<open>key=val\<close> and \<^verbatim>\<open>key==val\<close> both parse without error to the same single
  requirement: key \<open>key\<close>, operation \<^verbatim>\<open>Equals\<close>, value \<open>val\<close>.
\<close>

theorem Parse_equal_alias:
  assumes "writtenIdentifier ksrc key" and "writtenIdentifier vsrc val"
  shows "ParseString (ksrc @ runes ''='' @ vsrc) =
           (\<lparr>Requirements = [\<lparr>Key = key, Value = val, Values = [], Operation = OperationEquals\<rparr>]\<rparr>, None) \<and>
         ParseString (ksrc @ runes ''=='' @ vsrc) =
           (\<lparr>Requirements = [\<lparr>Key = key, Value = val, Values = [], Operation = OperationEquals\<rparr>]\<rparr>, None)"
proof -
  let ?req = "\<lparr>Key = key, Value = val, Values = [], Operation = OperationEquals\<rparr>"
  from writtenIdentifier_head [OF assms(2)] obtain v vs where v: "vsrc = v # vs" "v \<noteq> rune_of CHR ''=''"
    by (cases vsrc) auto
  have single: "Parse_loop (NewParser (ksrc @ runes ''='' @ vsrc)) \<lparr>Requirements = []\<rparr> =
                  (\<lparr>Requirements = [?req]\<rparr>, None)"
  proof -
    from Parser_next_writtenIdentifier [OF assms(1), of "NewParser (ksrc @ runes ''='' @ vsrc)"
        "rune_of CHR ''='' # vsrc"] equals_not_ident
    obtain p1 where a: "Parser_next (NewParser (ksrc @ runes ''='' @ vsrc)) = (IDENT, key, p1)"
      and p1: "pending p1 = rune_of CHR ''='' # vsrc"
      by (auto simp: NewParser_def NewLexer_def runes_def)
    let ?p2 = "\<lparr>pending = vsrc, unreadable = None\<rparr>"
    have b: "Parser_next p1 = (EQUAL, [v], ?p2)"
      using Next_equal_single [of p1 v vs] p1 v by (intro Parser_next_token) simp_all
    from parseEqualRequirement_writtenIdentifier [OF assms(2), of ?p2 key]
    obtain p3 where c0: "parseEqualRequirement key ?p2 = ((?req, None), p3)" and p3: "pending p3 = []"
      by auto
    then have c: "Parse_switch key EQUAL [v] ?p2 = Inr ((?req, None), p3)"
      by (simp add: Parse_switch_def)
    from Parse_loop_ident [OF a b c] Parse_loop_Nil [OF p3] show ?thesis by simp
  qed
  have double: "Parse_loop (NewParser (ksrc @ runes ''=='' @ vsrc)) \<lparr>Requirements = []\<rparr> =
                  (\<lparr>Requirements = [?req]\<rparr>, None)"
  proof -
    from Parser_next_writtenIdentifier [OF assms(1), of "NewParser (ksrc @ runes ''=='' @ vsrc)"
        "rune_of CHR ''='' # rune_of CHR ''='' # vsrc"] equals_not_ident
    obtain p1 where a: "Parser_next (NewParser (ksrc @ runes ''=='' @ vsrc)) = (IDENT, key, p1)"
      and p1: "pending p1 = rune_of CHR ''='' # rune_of CHR ''='' # vsrc"
      by (auto simp: NewParser_def NewLexer_def runes_def)
    let ?p2 = "\<lparr>pending = vsrc, unreadable = Some (rune_of CHR ''='')\<rparr>"
    have b: "Parser_next p1 = (EQUAL, runes ''=='', ?p2)"
      using Next_equal_double [of p1 vsrc] p1 by (intro Parser_next_token) simp_all
    from parseEqualRequirement_writtenIdentifier [OF assms(2), of ?p2 key]
    obtain p3 where c0: "parseEqualRequirement key ?p2 = ((?req, None), p3)" and p3: "pending p3 = []"
      by auto
    then have c: "Parse_switch key EQUAL (runes ''=='') ?p2 = Inr ((?req, None), p3)"
      by (simp add: Parse_switch_def)
    from Parse_loop_ident [OF a b c] Parse_loop_Nil [OF p3] show ?thesis by simp
  qed
  from single double show ?thesis by (simp add: ParseString_def Parse_def Parser_Parse_def)
qed

lemma writtenIdentifier_key: "writtenIdentifier (runes ''key'') (runes ''key'')"
  by (simp add: writtenIdentifier_def bareIdentifier_key)

lemma writtenIdentifier_value: "writtenIdentifier (runes ''value'') (runes ''value'')"
  by (simp add: writtenIdentifier_def bareIdentifier_value)

lemma writtenIdentifier_quoted:
  "writtenIdentifier (runes [CHR 0x22, CHR ''m'', CHR ''y'', CHR '' '', CHR ''k'', CHR ''e'', CHR ''y'', CHR 0x22])
     (runes ''my key'')"
  by (simp add: writtenIdentifier_def quotedText_def runes_def eof_def nth_Cons split: nat.splits)

theorem Parse_equal_alias_witness:
  "ParseString (runes ''key=value'') =
     (\<lparr>Requirements = [\<lparr>Key = runes ''key'', Value = runes ''value'', Values = [],
                          Operation = OperationEquals\<rparr>]\<rparr>, None) \<and>
   ParseString (runes ''key==value'') = ParseString (runes ''key=value'') \<and>
   ParseString (runes [CHR 0x22, CHR ''m'', CHR ''y'', CHR '' '', CHR ''k'', CHR ''e'', CHR ''y'', CHR 0x22,
                       CHR ''='', CHR ''='', CHR ''v'', CHR ''a'', CHR ''l'', CHR ''u'', CHR ''e'']) =
     (\<lparr>Requirements = [\<lparr>Key = runes ''my key'', Value = runes ''value'', Values = [],
                          Operation = OperationEquals\<rparr>]\<rparr>, None)"
  using Parse_equal_alias [OF writtenIdentifier_key writtenIdentifier_value]
    Parse_equal_alias [OF writtenIdentifier_quoted writtenIdentifier_value]
  by (simp add: runes_def)

text \<open>
  Claim C8. For every identifier \<open>key\<close>, written bare or between double quotes, the input
  \<^verbatim>\<open>key in ()\<close> parses without error to a single \<^verbatim>\<open>In\<close> requirement for that key, whose
  \<^verbatim>\<open>Values\<close> are empty.
\<close>

theorem Parse_in_empty_list:
  assumes "writtenIdentifier ksrc key"
  shows "ParseString (ksrc @ runes '' in ()'') =
           (\<lparr>Requirements = [\<lparr>Key = key, Value = [], Values = [], Operation = OperationIn\<rparr>]\<rparr>, None)"
proof -
  let ?req = "\<lparr>Key = key, Value = [], Values = [], Operation = OperationIn\<rparr>"
  let ?p1 = "\<lparr>pending = runes '' in ()'', unreadable = None\<rparr>"
  let ?p2 = "\<lparr>pending = runes '' ()'', unreadable = None\<rparr>"
  let ?p3 = "\<lparr>pending = runes '')'', unreadable = Some (rune_of CHR ''('')\<rparr>"
  let ?p4 = "\<lparr>pending = [], unreadable = Some (rune_of CHR '')'')\<rparr>"
  from Parser_next_writtenIdentifier [OF assms, of "NewParser (ksrc @ runes '' in ()'')" "runes '' in ()''"]
  obtain p1 where a: "Parser_next (NewParser (ksrc @ runes '' in ()'')) = (IDENT, key, p1)"
    and p1: "pending p1 = runes '' in ()''"
    by (auto simp: NewParser_def NewLexer_def runes_def isValidIdentRune_def eof_def)
  have "Parser_next ?p1 = (IN, runes ''in'', ?p2)"
    by code_simp
  with Parser_next_same_pending [of p1 ?p1] p1 have b: "Parser_next p1 = (IN, runes ''in'', ?p2)"
    by simp
  have c: "Parser_next ?p2 = (OPENING_BRACKET, runes ''('', ?p3)"
    by code_simp
  have d: "parseIdentList ?p3 = (([], None), ?p4)"
    by code_simp
  have e: "Parse_switch key IN (runes ''in'') ?p2 = Inr ((?req, None), ?p4)"
    using c d by (simp add: Parse_switch_def parseInRequirement_def)
  have f: "Parse_loop ?p4 \<lparr>Requirements = [?req]\<rparr> = (\<lparr>Requirements = [?req]\<rparr>, None)"
    by (rule Parse_loop_Nil) simp
  from Parse_loop_ident [OF a b e] f show ?thesis
    by (simp add: ParseString_def Parse_def Parser_Parse_def)
qed

theorem Parse_in_empty_list_witness:
  "ParseString (runes ''key in ()'') =
     (\<lparr>Requirements = [\<lparr>Key = runes ''key'', Value = [], Values = [], Operation = OperationIn\<rparr>]\<rparr>, None)"
  using Parse_in_empty_list [OF writtenIdentifier_key]
  by (simp add: runes_def)

section \<open>Lists of identifiers\<close>

lemma dropWhile_no_eof:
  "eof \<notin> set xs \<Longrightarrow> dropWhile P xs = [] \<or> hd (dropWhile P xs) \<noteq> eof"
  by (metis hd_in_set set_dropWhileD)

lemma dropWhile_head:
  "dropWhile P xs = [] \<or> \<not> P (hd (dropWhile P xs))"
  by (metis hd_dropWhile)

lemma Parser_next_skip_rune:
  assumes "pending p = c # rest" and "isWhitespace c"
    and "dropWhile isWhitespace rest = [] \<or> hd (dropWhile isWhitespace rest) \<noteq> eof"
    and "pending q = rest"
  shows "Parser_next p = Parser_next q"
proof -
  let ?w = "takeWhile isWhitespace rest" and ?r = "dropWhile isWhitespace rest"
  let ?n = "\<lparr>pending = ?r, unreadable = None\<rparr>"
  have r: "?r = [] \<or> \<not> isWhitespace (hd ?r) \<and> hd ?r \<noteq> eof"
    using assms(3) dropWhile_head [of isWhitespace rest] by blast
  have "Next p = (WS, c # ?w, ?n)"
    using assms(1,2) r by (intro Next_whitespace_run) (auto dest: set_takeWhileD)
  then have 1: "Parser_next p = Parser_next ?n" by (rule Parser_next_skip)
  have 2: "Parser_next q = Parser_next ?n"
  proof (cases "?w = []")
    case True
    then have "?r = rest" by (metis takeWhile_dropWhile_id append_Nil)
    with assms(4) show ?thesis by (intro Parser_next_same_pending) simp
  next
    case False
    have "Next q = (WS, ?w, ?n)"
      using assms(4) r False by (intro Next_whitespace_run) (auto dest: set_takeWhileD)
    then show ?thesis by (rule Parser_next_skip)
  qed
  from 1 2 show ?thesis by simp
qed

lemma Parser_next_skip_run:
  assumes "\<forall>c\<in>set w. isWhitespace c" and "pending p = w @ rest"
    and "dropWhile isWhitespace rest = [] \<or> hd (dropWhile isWhitespace rest) \<noteq> eof"
    and "pending q = rest"
  shows "Parser_next p = Parser_next q"
  using assms
proof (induction w arbitrary: p)
  case Nil
  then show ?case by (intro Parser_next_same_pending) simp
next
  case (Cons c w)
  let ?m = "\<lparr>pending = w @ rest, unreadable = None\<rparr>"
  from Cons.prems have dw: "dropWhile isWhitespace (w @ rest) = dropWhile isWhitespace rest"
    by (simp add: dropWhile_append1 dropWhile_append)
  have "Parser_next p = Parser_next ?m"
    using Cons.prems dw by (intro Parser_next_skip_rune [of p c "w @ rest"]) simp_all
  also have "\<dots> = Parser_next q"
    using Cons.prems by (intro Cons.IH) simp_all
  finally show ?case .
qed

lemma Parse_loop_same_next:
  assumes "Parser_next p = Parser_next q"
  shows "Parse_loop p sel = Parse_loop q sel"
  by (subst Parse_loop.simps, subst (2) Parse_loop.simps) (simp add: assms)

lemma comma_not_ident:
  "\<not> isWhitespace (rune_of CHR '','')" "\<not> isValidIdentRune (rune_of CHR '','')" "rune_of CHR '','' \<noteq> eof"
  by (simp_all add: isWhitespace_def isValidIdentRune_def eof_def)

lemma Next_comma:
  assumes "pending s = rune_of CHR '','' # rest"
  shows "Next s = (COMMA, runes '','', \<lparr>pending = rest, unreadable = Some (rune_of CHR '','')\<rparr>)"
  using comma_not_ident by (simp add: Next_def read_Cons [OF assms] eof_def runes_def)

text \<open>Commas and whitespace before a clause are skipped.\<close>

lemma Parse_loop_skip_separators:
  assumes "\<forall>c\<in>set lead. isWhitespace c \<or> c = rune_of CHR '',''"
    and "pending p = lead @ rest" and "eof \<notin> set rest" and "pending q = rest"
  shows "Parse_loop p sel = Parse_loop q sel"
  using assms
proof (induction lead arbitrary: p)
  case Nil
  then show ?case by (intro Parse_loop_same_pending) simp
next
  case (Cons c lead)
  let ?m = "\<lparr>pending = lead @ rest, unreadable = None\<rparr>"
  have ih: "Parse_loop ?m sel = Parse_loop q sel"
    using Cons.prems by (intro Cons.IH) simp_all
  have ne: "eof \<notin> set (lead @ rest)"
    using Cons.prems Whitespace_not_eof comma_not_ident(3) by auto
  show ?case
  proof (cases "isWhitespace c")
    case True
    have "Parser_next p = Parser_next ?m"
      using Cons.prems(2) True dropWhile_no_eof [OF ne]
      by (intro Parser_next_skip_rune [of p c "lead @ rest"]) simp_all
    then have "Parse_loop p sel = Parse_loop ?m sel" by (rule Parse_loop_same_next)
    with ih show ?thesis by simp
  next
    case False
    with Cons.prems have c: "c = rune_of CHR '',''" by simp
    let ?m' = "\<lparr>pending = lead @ rest, unreadable = Some (rune_of CHR '','')\<rparr>"
    have "Next p = (COMMA, runes '','', ?m')"
      using Cons.prems(2) c by (intro Next_comma) simp
    then have "Parser_next p = (COMMA, runes '','', ?m')" by (rule Parser_next_token) simp
    then have "Parse_loop p sel = Parse_loop ?m' sel" by (rule Parse_loop_comma)
    also have "\<dots> = Parse_loop ?m sel" by (rule Parse_loop_same_pending) simp
    finally show ?thesis using ih by simp
  qed
qed


lemma bareIdentifier_no_eof: "bareIdentifier t \<Longrightarrow> eof \<notin> set t"
  using eof_not_ValidIdentRune by (auto simp: bareIdentifier_def)

lemma separators_no_eof:
  "\<forall>c\<in>set sep. isWhitespace c \<or> c = rune_of CHR '','' \<Longrightarrow> eof \<notin> set sep"
  using Whitespace_not_eof comma_not_ident(3) by auto

lemma items_no_eof:
  assumes "\<forall>(t, sep)\<in>set items. bareIdentifier t \<and> (\<forall>c\<in>set sep. isWhitespace c \<or> c = rune_of CHR '','')"
  shows "eof \<notin> set (concat (map (\<lambda>(t, sep). t @ sep) items))"
  using assms bareIdentifier_no_eof separators_no_eof by fastforce

lemma Parse_loop_items:
  assumes "\<forall>(t, sep)\<in>set items. bareIdentifier t \<and> (\<forall>c\<in>set sep. isWhitespace c \<or> c = rune_of CHR '','')"
    and "\<forall>(t, sep)\<in>set (butlast items). rune_of CHR '','' \<in> set sep"
    and "pending p = concat (map (\<lambda>(t, sep). t @ sep) items)"
  shows "Parse_loop p sel =
           (sel\<lparr>Requirements := Requirements sel @
              map (\<lambda>(t, sep). \<lparr>Key = t, Value = [], Values = [], Operation = OperationExists\<rparr>) items\<rparr>, None)"
  using assms
proof (induction items arbitrary: p sel)
  case Nil
  then show ?case by (simp add: Parse_loop_Nil)
next
  case (Cons item items)
  obtain t sep where item: "item = (t, sep)" by (cases item)
  let ?R = "concat (map (\<lambda>(t, sep). t @ sep) items)"
  let ?req = "\<lparr>Key = t, Value = [], Values = [], Operation = OperationExists\<rparr>"
  let ?sel = "sel\<lparr>Requirements := Requirements sel @ [?req]\<rparr>"
  from Cons.prems(1) item have t: "bareIdentifier t"
    and sep: "\<forall>c\<in>set sep. isWhitespace c \<or> c = rune_of CHR '',''"
    and rest: "\<forall>(t, sep)\<in>set items. bareIdentifier t \<and> (\<forall>c\<in>set sep. isWhitespace c \<or> c = rune_of CHR '','')"
    by auto
  have R0: "eof \<notin> set ?R" using rest by (rule items_no_eof)
  have last_or_comma: "items = [] \<or> rune_of CHR '','' \<in> set sep"
    using Cons.prems(2) item by (cases items) auto
  have rest_b: "\<forall>(t, sep)\<in>set (butlast items). rune_of CHR '','' \<in> set sep"
    using Cons.prems(2) by (cases items) auto
  have p: "pending p = t @ (sep @ ?R)" using Cons.prems(3) item by simp
  let ?p1 = "\<lparr>pending = sep @ ?R, unreadable = None\<rparr>"
  have hd_ok: "sep @ ?R = [] \<or> \<not> isValidIdentRune (hd (sep @ ?R)) \<and> hd (sep @ ?R) \<noteq> eof"
  proof (cases sep)
    case Nil
    with last_or_comma have "items = []" by auto
    with Nil show ?thesis by simp
  next
    case (Cons c cs)
    with sep have "isWhitespace c \<or> c = rune_of CHR '',''" by simp
    then have "\<not> isValidIdentRune c \<and> c \<noteq> eof"
      using Whitespace_not_ValidIdentRune Whitespace_not_eof comma_not_ident by auto
    with Cons show ?thesis by simp
  qed
  have a: "Parser_next p = (IDENT, t, ?p1)"
    using t p hd_ok by (rule Parser_next_bareIdentifier)
  show ?case
  proof (cases "rune_of CHR '','' \<in> set sep")
    case True
    then obtain w sep2 where split: "sep = w @ rune_of CHR '','' # sep2" "rune_of CHR '','' \<notin> set w"
      by (meson split_list_first)
    with sep have w: "\<forall>c\<in>set w. isWhitespace c" by auto
    from split sep have sep2: "\<forall>c\<in>set sep2. isWhitespace c \<or> c = rune_of CHR '',''" by auto
    let ?pc = "\<lparr>pending = rune_of CHR '','' # sep2 @ ?R, unreadable = None\<rparr>"
    let ?p2 = "\<lparr>pending = sep2 @ ?R, unreadable = Some (rune_of CHR '','')\<rparr>"
    let ?p3 = "\<lparr>pending = ?R, unreadable = None\<rparr>"
    have dw: "dropWhile isWhitespace (rune_of CHR '','' # sep2 @ ?R) = [] \<or>
              hd (dropWhile isWhitespace (rune_of CHR '','' # sep2 @ ?R)) \<noteq> eof"
      using comma_not_ident by simp
    have "Parser_next ?p1 = Parser_next ?pc"
      using w split(1) dw by (intro Parser_next_skip_run [of w ?p1 "rune_of CHR '','' # sep2 @ ?R"]) simp_all
    also have "\<dots> = (COMMA, runes '','', ?p2)"
      by (rule Parser_next_token [OF Next_comma]) simp_all
    finally have b: "Parser_next ?p1 = (COMMA, runes '','', ?p2)" .
    have c: "Parse_switch t COMMA (runes '','') ?p2 = Inr ((?req, None), ?p2)"
      by (simp add: Parse_switch_def)
    have "Parse_loop p sel = Parse_loop ?p2 ?sel"
      by (rule Parse_loop_ident [OF a b c])
    also have "\<dots> = Parse_loop ?p3 ?sel"
      using sep2 R0 by (intro Parse_loop_skip_separators [of sep2 ?p2 ?R]) simp_all
    also have "\<dots> = (?sel\<lparr>Requirements := Requirements ?sel @
              map (\<lambda>(t, sep). \<lparr>Key = t, Value = [], Values = [], Operation = OperationExists\<rparr>) items\<rparr>, None)"
      using rest rest_b by (intro Cons.IH) simp_all
    finally show ?thesis by (simp add: item)
  next
    case False
    with last_or_comma have items: "items = []" by simp
    from False sep have w: "\<forall>c\<in>set sep. isWhitespace c" by auto
    let ?end = "\<lparr>pending = [], unreadable = None\<rparr>"
    have "Parser_next ?p1 = Parser_next ?end"
      using w items by (intro Parser_next_skip_run [of sep ?p1 "[]"]) simp_all
    also have "\<dots> = (EOF, [], ?end)"
      by (rule Parser_next_token [OF Next_Nil]) simp_all
    finally have b: "Parser_next ?p1 = (EOF, [], ?end)" .
    have c: "Parse_switch t EOF [] ?end = Inr ((?req, None), ?end)"
      by (simp add: Parse_switch_def)
    have "Parse_loop p sel = Parse_loop ?end ?sel"
      by (rule Parse_loop_ident [OF a b c])
    also have "\<dots> = (?sel, None)" by (rule Parse_loop_Nil) simp
    finally show ?thesis by (simp add: item items)
  qed
qed

text \<open>
  Claim C6. The input is a run of commas and whitespace, then identifiers, each followed
  by a run of commas and whitespace; the run between two identifiers holds at least one
  comma, the run after the last identifier may be anything, also empty. The parse
  returns no error and exactly one \<^verbatim>\<open>Exists\<close> requirement per identifier, in the order of
  the input, however many commas and however much whitespace the runs hold.
\<close>

theorem Parse_bare_identifiers:
  assumes "\<forall>c\<in>set lead. isWhitespace c \<or> c = rune_of CHR '',''"
    and "\<forall>(t, sep)\<in>set items. bareIdentifier t \<and> (\<forall>c\<in>set sep. isWhitespace c \<or> c = rune_of CHR '','')"
    and "\<forall>(t, sep)\<in>set (butlast items). rune_of CHR '','' \<in> set sep"
  shows "ParseString (lead @ concat (map (\<lambda>(t, sep). t @ sep) items)) =
           (\<lparr>Requirements =
               map (\<lambda>(t, sep). \<lparr>Key = t, Value = [], Values = [], Operation = OperationExists\<rparr>) items\<rparr>,
            None)"
proof -
  let ?R = "concat (map (\<lambda>(t, sep). t @ sep) items)"
  let ?q = "\<lparr>pending = ?R, unreadable = None\<rparr>"
  have "Parse_loop (NewParser (lead @ ?R)) \<lparr>Requirements = []\<rparr> = Parse_loop ?q \<lparr>Requirements = []\<rparr>"
    using assms(1) items_no_eof [OF assms(2)]
    by (intro Parse_loop_skip_separators [of lead _ ?R]) (simp_all add: NewParser_def NewLexer_def)
  also have "\<dots> = (\<lparr>Requirements = []\<rparr>\<lparr>Requirements := Requirements \<lparr>Requirements = []\<rparr> @
              map (\<lambda>(t, sep). \<lparr>Key = t, Value = [], Values = [], Operation = OperationExists\<rparr>) items\<rparr>, None)"
    using assms(2,3) by (intro Parse_loop_items) simp_all
  finally show ?thesis by (simp add: ParseString_def Parse_def Parser_Parse_def)
qed


theorem Parse_bare_identifiers_witness:
  "ParseString (runes '', ,foo ,, bar,baz  '') =
     (\<lparr>Requirements =
         [\<lparr>Key = runes ''foo'', Value = [], Values = [], Operation = OperationExists\<rparr>,
          \<lparr>Key = runes ''bar'', Value = [], Values = [], Operation = OperationExists\<rparr>,
          \<lparr>Key = runes ''baz'', Value = [], Values = [], Operation = OperationExists\<rparr>]\<rparr>,
      None)"
proof -
  let ?lead = "runes '', ,''"
  let ?items = "[(runes ''foo'', runes '' ,, ''), (runes ''bar'', runes '',''), (runes ''baz'', runes ''  '')]"
  have 1: "\<forall>c\<in>set ?lead. isWhitespace c \<or> c = rune_of CHR '',''"
    by (simp add: runes_def isWhitespace_def)
  have 2: "\<forall>(t, sep)\<in>set ?items. bareIdentifier t \<and> (\<forall>c\<in>set sep. isWhitespace c \<or> c = rune_of CHR '','')"
    by (simp add: runes_def isWhitespace_def bareIdentifier_def isValidIdentRune_def ToUpper_def)
  have 3: "\<forall>(t, sep)\<in>set (butlast ?items). rune_of CHR '','' \<in> set sep"
    by (simp add: runes_def)
  from Parse_bare_identifiers [OF 1 2 3] show ?thesis
    by (simp add: runes_def)
qed

section \<open>Whitespace\<close>

lemma Next_consumes:
  assumes "Next s = (tok, lit, s')" and "pending s \<noteq> []"
  shows "length (pending s') < length (pending s)"
proof (cases "tok = EOF")
  case False
  with Next_shorter [OF assms(1)] show ?thesis by simp
next
  case True
  from assms(2) obtain ch rest where p: "pending s = ch # rest" by (cases "pending s") auto
  let ?s1 = "\<lparr>pending = rest, unreadable = Some ch\<rparr>"
  have r: "read s = (ch, ?s1)" using p by (rule read_Cons)
  have "s' = ?s1"
    using assms(1) True r
    by (auto simp: Next_def scanWhitespace_def scanIdent_def scanQuotedIdent_def
             split: if_splits prod.splits)
  with p show ?thesis by simp
qed

text \<open>
  The tokens that repeated calls of \<^verbatim>\<open>Next\<close> return until the input is used up. After
  that, \<^verbatim>\<open>Next\<close> returns \<^verbatim>\<open>EOF\<close> with an empty literal for ever (\<open>Next_Nil\<close>).
\<close>

function tokens :: "Lexer \<Rightarrow> (Token \<times> gostring) list" where
  "tokens s =
     (if pending s = [] then []
      else case Next s of (tok, lit, s') \<Rightarrow> (tok, lit) # tokens s')"
  by pat_completeness auto
termination
proof (relation "measure (\<lambda>s. length (pending s))", goal_cases)
  case 1
  show ?case by simp
next
  case (2 s x y lit s')
  then have "Next s = (x, lit, s')" "pending s \<noteq> []" by simp_all
  from Next_consumes [OF this] show ?case by simp
qed

declare tokens.simps [simp del]


text \<open>
  The tokens the parser sees: \<^verbatim>\<open>Parser.next\<close> drops the \<^verbatim>\<open>WS\<close> tokens and hands on the
  others.
\<close>

definition significant :: "Lexer \<Rightarrow> (Token \<times> gostring) list" where
  "significant s = filter (\<lambda>(tok, lit). tok \<noteq> WS) (tokens s)"

lemma tokens_Nil: "pending s = [] \<Longrightarrow> tokens s = []"
  by (subst tokens.simps) simp

lemma tokens_Cons:
  "pending s \<noteq> [] \<Longrightarrow> Next s = (tok, lit, s') \<Longrightarrow> tokens s = (tok, lit) # tokens s'"
  by (subst tokens.simps) simp

lemma Parser_next_significant:
  "Parser_next p = (tok, lit, p') \<Longrightarrow>
     (case significant p of
        [] \<Rightarrow> tok = EOF \<and> lit = [] \<and> significant p' = []
      | x # xs \<Rightarrow> x = (tok, lit) \<and> significant p' = xs)"
proof (induction "length (pending p)" arbitrary: p rule: less_induct)
  case less
  show ?case
  proof (cases "pending p = []")
    case True
    from Parser_next_token [OF Next_Nil [OF True]] less(2)
    have "tok = EOF" "lit = []" "pending p' = []" by auto
    with True show ?thesis by (simp add: significant_def tokens_Nil)
  next
    case False
    obtain t1 l1 p1 where n: "Next p = (t1, l1, p1)" by (cases "Next p")
    note tk = tokens_Cons [OF False n]
    show ?thesis
    proof (cases "t1 = WS")
      case True
      with n have "Parser_next p = Parser_next p1" by (simp add: Parser_next_skip)
      with less(2) have "Parser_next p1 = (tok, lit, p')" by simp
      from less(1) [OF Next_consumes [OF n False] this] tk True show ?thesis
        by (simp add: significant_def)
    next
      case ws: False
      from Parser_next_token [OF n ws] less(2) have "tok = t1" "lit = l1" "p' = p1" by auto
      with tk ws show ?thesis by (simp add: significant_def)
    qed
  qed
qed

text \<open>
  Two states of the lexer see the same tokens up to \<open>f\<close>, a function that may forget
  part of a literal, depending on the token.
\<close>

definition same_tokens :: "(Token \<Rightarrow> gostring \<Rightarrow> gostring) \<Rightarrow> Lexer \<Rightarrow> Lexer \<Rightarrow> bool" where
  "same_tokens f p q \<longleftrightarrow>
     map (\<lambda>(tok, lit). (tok, f tok lit)) (significant p) =
     map (\<lambda>(tok, lit). (tok, f tok lit)) (significant q)"

lemma Parser_next_same_tokens:
  assumes "same_tokens f p q" and "Parser_next p = (t1, l1, p')" and "Parser_next q = (t2, l2, q')"
  shows "t1 = t2 \<and> f t1 l1 = f t1 l2 \<and> same_tokens f p' q'"
proof (cases "significant p")
  case Nil
  with assms(1) have "significant q = []" by (simp add: same_tokens_def)
  with Nil Parser_next_significant [OF assms(2)] Parser_next_significant [OF assms(3)]
  show ?thesis by (simp add: same_tokens_def)
next
  case (Cons x xs)
  with assms(1) obtain y ys where q: "significant q = y # ys"
    by (cases "significant q") (auto simp: same_tokens_def)
  from Cons Parser_next_significant [OF assms(2)] have p1: "x = (t1, l1)" "significant p' = xs" by simp_all
  from q Parser_next_significant [OF assms(3)] have q1: "y = (t2, l2)" "significant q' = ys" by simp_all
  from assms(1) Cons q p1 q1 show ?thesis by (auto simp: same_tokens_def)
qed


text \<open>Two errors are the same up to \<open>f\<close> of the literal that one of three messages quotes.\<close>

definition same_error :: "(Token \<Rightarrow> gostring \<Rightarrow> gostring) \<Rightarrow> error option \<Rightarrow> error option \<Rightarrow> bool" where
  "same_error f e1 e2 \<longleftrightarrow>
     e1 = e2 \<or>
     (\<exists>tok l1 l2. f tok l1 = f tok l2 \<and>
        (e1 = Some (UnexpectedToken l1) \<and> e2 = Some (UnexpectedToken l2) \<or>
         e1 = Some (UnexpectedTokenInValueList l1) \<and> e2 = Some (UnexpectedTokenInValueList l2) \<or>
         e1 = Some (RequireInAfterNot l1) \<and> e2 = Some (RequireInAfterNot l2)))"

lemma same_error_refl [simp]: "same_error f e e"
  by (simp add: same_error_def)

lemma same_error_None [simp]:
  "same_error f None e \<longleftrightarrow> e = None" "same_error f e None \<longleftrightarrow> e = None"
  by (auto simp: same_error_def)

lemma parseEqualRequirement_same:
  assumes "\<And>l. f IDENT l = l" and "same_tokens f p q"
  shows "\<exists>res p' q'. parseEqualRequirement key p = (res, p') \<and>
           parseEqualRequirement key q = (res, q') \<and> same_tokens f p' q'"
proof -
  obtain t1 l1 p1 where a: "Parser_next p = (t1, l1, p1)" by (cases "Parser_next p")
  obtain t2 l2 q1 where b: "Parser_next q = (t2, l2, q1)" by (cases "Parser_next q")
  from Parser_next_same_tokens [OF assms(2) a b] assms(1) a b show ?thesis
    by (auto simp: parseEqualRequirement_def)
qed

lemma parseNotEqualRequirement_same:
  assumes "\<And>l. f IDENT l = l" and "same_tokens f p q"
  shows "\<exists>res p' q'. parseNotEqualRequirement key p = (res, p') \<and>
           parseNotEqualRequirement key q = (res, q') \<and> same_tokens f p' q'"
proof -
  obtain t1 l1 p1 where a: "Parser_next p = (t1, l1, p1)" by (cases "Parser_next p")
  obtain t2 l2 q1 where b: "Parser_next q = (t2, l2, q1)" by (cases "Parser_next q")
  from Parser_next_same_tokens [OF assms(2) a b] assms(1) a b show ?thesis
    by (auto simp: parseNotEqualRequirement_def)
qed

lemma parseLowerThanRequirement_same:
  assumes "\<And>l. f IDENT l = l" and "same_tokens f p q"
  shows "\<exists>res p' q'. parseLowerThanRequirement key p = (res, p') \<and>
           parseLowerThanRequirement key q = (res, q') \<and> same_tokens f p' q'"
proof -
  obtain t1 l1 p1 where a: "Parser_next p = (t1, l1, p1)" by (cases "Parser_next p")
  obtain t2 l2 q1 where b: "Parser_next q = (t2, l2, q1)" by (cases "Parser_next q")
  from Parser_next_same_tokens [OF assms(2) a b] assms(1) a b show ?thesis
    by (auto simp: parseLowerThanRequirement_def)
qed

lemma parseLowerThanEqualRequirement_same:
  assumes "\<And>l. f IDENT l = l" and "same_tokens f p q"
  shows "\<exists>res p' q'. parseLowerThanEqualRequirement key p = (res, p') \<and>
           parseLowerThanEqualRequirement key q = (res, q') \<and> same_tokens f p' q'"
proof -
  obtain t1 l1 p1 where a: "Parser_next p = (t1, l1, p1)" by (cases "Parser_next p")
  obtain t2 l2 q1 where b: "Parser_next q = (t2, l2, q1)" by (cases "Parser_next q")
  from Parser_next_same_tokens [OF assms(2) a b] assms(1) a b show ?thesis
    by (auto simp: parseLowerThanEqualRequirement_def)
qed

lemma parseGreaterThanRequirement_same:
  assumes "\<And>l. f IDENT l = l" and "same_tokens f p q"
  shows "\<exists>res p' q'. parseGreaterThanRequirement key p = (res, p') \<and>
           parseGreaterThanRequirement key q = (res, q') \<and> same_tokens f p' q'"
proof -
  obtain t1 l1 p1 where a: "Parser_next p = (t1, l1, p1)" by (cases "Parser_next p")
  obtain t2 l2 q1 where b: "Parser_next q = (t2, l2, q1)" by (cases "Parser_next q")
  from Parser_next_same_tokens [OF assms(2) a b] assms(1) a b show ?thesis
    by (auto simp: parseGreaterThanRequirement_def)
qed

lemma parseGreaterThanEqualRequirement_same:
  assumes "\<And>l. f IDENT l = l" and "same_tokens f p q"
  shows "\<exists>res p' q'. parseGreaterThanEqualRequirement key p = (res, p') \<and>
           parseGreaterThanEqualRequirement key q = (res, q') \<and> same_tokens f p' q'"
proof -
  obtain t1 l1 p1 where a: "Parser_next p = (t1, l1, p1)" by (cases "Parser_next p")
  obtain t2 l2 q1 where b: "Parser_next q = (t2, l2, q1)" by (cases "Parser_next q")
  from Parser_next_same_tokens [OF assms(2) a b] assms(1) a b show ?thesis
    by (auto simp: parseGreaterThanEqualRequirement_def)
qed

lemma parseNotExistsRequirement_same:
  assumes "\<And>l. f IDENT l = l" and "same_tokens f p q"
  shows "\<exists>res p' q'. parseNotExistsRequirement p = (res, p') \<and>
           parseNotExistsRequirement q = (res, q') \<and> same_tokens f p' q'"
proof -
  obtain t1 l1 p1 where a: "Parser_next p = (t1, l1, p1)" by (cases "Parser_next p")
  obtain t2 l2 q1 where b: "Parser_next q = (t2, l2, q1)" by (cases "Parser_next q")
  from Parser_next_same_tokens [OF assms(2) a b] assms(1) a b show ?thesis
    by (auto simp: parseNotExistsRequirement_def)
qed

lemma parseIdentList_loop_same:
  assumes "\<And>l. f IDENT l = l" and "same_tokens f p q"
  shows "\<exists>res e1 e2 p' q'. parseIdentList_loop list p = ((res, e1), p') \<and>
           parseIdentList_loop list q = ((res, e2), q') \<and> same_error f e1 e2 \<and> same_tokens f p' q'"
  using assms(2)
proof (induction "length (pending p)" arbitrary: list p q rule: less_induct)
  case less
  obtain t1 l1 p1 where a: "Parser_next p = (t1, l1, p1)" by (cases "Parser_next p")
  obtain t2 l2 q1 where b: "Parser_next q = (t2, l2, q1)" by (cases "Parser_next q")
  from Parser_next_same_tokens [OF less(2) a b]
  have t: "t2 = t1" and l: "f t1 l1 = f t1 l2" and st: "same_tokens f p1 q1" by auto
  have sp: "parseIdentList_loop list p =
     (if t1 = CLOSING_BRACKET then ((list, None), p1)
      else if t1 = COMMA then parseIdentList_loop list p1
      else if t1 = IDENT then parseIdentList_loop (list @ [l1]) p1
      else (([], Some (UnexpectedTokenInValueList l1)), p1))"
    by (subst parseIdentList_loop.simps) (simp add: a)
  have sq: "parseIdentList_loop list q =
     (if t1 = CLOSING_BRACKET then ((list, None), q1)
      else if t1 = COMMA then parseIdentList_loop list q1
      else if t1 = IDENT then parseIdentList_loop (list @ [l2]) q1
      else (([], Some (UnexpectedTokenInValueList l2)), q1))"
    by (subst parseIdentList_loop.simps) (simp add: b t)
  consider (close) "t1 = CLOSING_BRACKET" | (comma) "t1 = COMMA" | (ident) "t1 = IDENT"
    | (other) "t1 \<noteq> CLOSING_BRACKET" "t1 \<noteq> COMMA" "t1 \<noteq> IDENT"
    by blast
  then show ?case
  proof cases
    case close
    with sp sq st show ?thesis by simp
  next
    case comma
    from Parser_next_shorter [OF a] comma have "length (pending p1) < length (pending p)" by simp
    from less(1) [OF this st, of list] comma sp sq show ?thesis by simp
  next
    case ident
    from Parser_next_shorter [OF a] ident have "length (pending p1) < length (pending p)" by simp
    moreover from l ident assms(1) have "l2 = l1" by simp
    ultimately show ?thesis using less(1) [OF _ st, of "list @ [l1]"] ident sp sq by simp
  next
    case other
    have "same_error f (Some (UnexpectedTokenInValueList l1)) (Some (UnexpectedTokenInValueList l2))"
      using l by (auto simp: same_error_def)
    with other sp sq st show ?thesis by simp
  qed
qed


lemma parseInRequirement_same:
  assumes "\<And>l. f IDENT l = l" and "same_tokens f p q"
  shows "\<exists>req e1 e2 p' q'. parseInRequirement key p = ((req, e1), p') \<and>
           parseInRequirement key q = ((req, e2), q') \<and> same_error f e1 e2 \<and> same_tokens f p' q'"
proof -
  obtain t1 l1 p1 where a: "Parser_next p = (t1, l1, p1)" by (cases "Parser_next p")
  obtain t2 l2 q1 where b: "Parser_next q = (t2, l2, q1)" by (cases "Parser_next q")
  from Parser_next_same_tokens [OF assms(2) a b]
  have t: "t2 = t1" and st: "same_tokens f p1 q1" by auto
  from parseIdentList_loop_same [OF assms(1) st, of "[]"] obtain res e1 e2 p2 q2 where
    l: "parseIdentList_loop [] p1 = ((res, e1), p2)" "parseIdentList_loop [] q1 = ((res, e2), q2)"
       "same_error f e1 e2" "same_tokens f p2 q2"
    by blast
  show ?thesis
  proof (cases "t1 = OPENING_BRACKET")
    case False
    with a b t st show ?thesis by (simp add: parseInRequirement_def)
  next
    case True
    show ?thesis
    proof (cases e1)
      case None
      with l(3) have "e2 = None" by simp
      with None True a b t l show ?thesis by (simp add: parseInRequirement_def parseIdentList_def)
    next
      case (Some e)
      with l(3) have "e2 \<noteq> None" by (cases e2) auto
      with Some True a b t l show ?thesis by (auto simp: parseInRequirement_def parseIdentList_def)
    qed
  qed
qed

lemma parseNotInRequirement_same:
  assumes "\<And>l. f IDENT l = l" and "same_tokens f p q"
  shows "\<exists>req e1 e2 p' q'. parseNotInRequirement key p = ((req, e1), p') \<and>
           parseNotInRequirement key q = ((req, e2), q') \<and> same_error f e1 e2 \<and> same_tokens f p' q'"
proof -
  obtain t1 l1 p1 where a: "Parser_next p = (t1, l1, p1)" by (cases "Parser_next p")
  obtain t2 l2 q1 where b: "Parser_next q = (t2, l2, q1)" by (cases "Parser_next q")
  from Parser_next_same_tokens [OF assms(2) a b]
  have t: "t2 = t1" and lt: "f t1 l1 = f t1 l2" and st: "same_tokens f p1 q1" by auto
  from parseInRequirement_same [OF assms(1) st, of key] obtain req e1 e2 p2 q2 where
    l: "parseInRequirement key p1 = ((req, e1), p2)" "parseInRequirement key q1 = ((req, e2), q2)"
       "same_error f e1 e2" "same_tokens f p2 q2"
    by blast
  show ?thesis
  proof (cases "t1 = IN")
    case False
    have "same_error f (Some (RequireInAfterNot l1)) (Some (RequireInAfterNot l2))"
      using lt by (auto simp: same_error_def)
    with False a b t st show ?thesis by (simp add: parseNotInRequirement_def)
  next
    case True
    show ?thesis
    proof (cases e1)
      case None
      with l(3) have "e2 = None" by simp
      with None True a b t l show ?thesis by (simp add: parseNotInRequirement_def)
    next
      case (Some e)
      with l(3) have "e2 \<noteq> None" by (cases e2) auto
      with Some True a b t l show ?thesis by (auto simp: parseNotInRequirement_def)
    qed
  qed
qed

lemma Parse_switch_same:
  assumes "\<And>l. f IDENT l = l" and "same_tokens f p q" and "f tok l1 = f tok l2"
  shows "(\<exists>e1 e2. Parse_switch key tok l1 p = Inl e1 \<and> Parse_switch key tok l2 q = Inl e2 \<and>
            same_error f (Some e1) (Some e2)) \<or>
         (\<exists>req e1 e2 p' q'. Parse_switch key tok l1 p = Inr ((req, e1), p') \<and>
            Parse_switch key tok l2 q = Inr ((req, e2), q') \<and> same_error f e1 e2 \<and> same_tokens f p' q')"
proof -
  have u: "same_error f (Some (UnexpectedToken l1)) (Some (UnexpectedToken l2))"
    using assms(3) by (auto simp: same_error_def)
  show ?thesis
  proof (cases tok)
    case EQUAL
    with parseEqualRequirement_same [OF assms(1,2), of key] show ?thesis
      by (fastforce simp: Parse_switch_def)
  next
    case NOT_EQUAL
    with parseNotEqualRequirement_same [OF assms(1,2), of key] show ?thesis
      by (fastforce simp: Parse_switch_def)
  next
    case IN
    with parseInRequirement_same [OF assms(1,2), of key] show ?thesis
      by (fastforce simp: Parse_switch_def)
  next
    case LOWER_THAN
    with parseLowerThanRequirement_same [OF assms(1,2), of key] show ?thesis
      by (fastforce simp: Parse_switch_def)
  next
    case LOWER_THAN_EQUAL
    with parseLowerThanEqualRequirement_same [OF assms(1,2), of key] show ?thesis
      by (fastforce simp: Parse_switch_def)
  next
    case GREATER_THAN
    with parseGreaterThanRequirement_same [OF assms(1,2), of key] show ?thesis
      by (fastforce simp: Parse_switch_def)
  next
    case GREATER_THAN_EQUAL
    with parseGreaterThanEqualRequirement_same [OF assms(1,2), of key] show ?thesis
      by (fastforce simp: Parse_switch_def)
  next
    case NOT
    with parseNotInRequirement_same [OF assms(1,2), of key] show ?thesis
      by (fastforce simp: Parse_switch_def)
  qed (use u assms(2) in \<open>simp_all add: Parse_switch_def\<close>)
qed


lemma Parse_loop_same:
  assumes "\<And>l. f IDENT l = l" and "same_tokens f p q"
  shows "fst (Parse_loop p sel) = fst (Parse_loop q sel) \<and>
         same_error f (snd (Parse_loop p sel)) (snd (Parse_loop q sel))"
  using assms(2)
proof (induction "length (pending p)" arbitrary: p q sel rule: less_induct)
  case less
  obtain t1 l1 p1 where a: "Parser_next p = (t1, l1, p1)" by (cases "Parser_next p")
  obtain t2 l2 q1 where b0: "Parser_next q = (t2, l2, q1)" by (cases "Parser_next q")
  from Parser_next_same_tokens [OF less(2) a b0]
  have t: "t2 = t1" and lt: "f t1 l1 = f t1 l2" and st: "same_tokens f p1 q1" by auto
  from b0 t have b: "Parser_next q = (t1, l2, q1)" by simp
  note sh = Parser_next_shorter [OF a]
  consider (comma) "t1 = COMMA" | (eof) "t1 = EOF" | (illegal) "t1 = ILLEGAL"
    | (excl) "t1 = EXCLAMATION_MARK" | (ident) "t1 = IDENT"
    | (other) "t1 \<noteq> COMMA" "t1 \<noteq> EOF" "t1 \<noteq> ILLEGAL" "t1 \<noteq> EXCLAMATION_MARK" "t1 \<noteq> IDENT"
    by blast
  then show ?case
  proof cases
    case comma
    then have "Parse_loop p sel = Parse_loop p1 sel" "Parse_loop q sel = Parse_loop q1 sel"
      using a b by (subst Parse_loop.simps, simp)+
    moreover from sh comma have "length (pending p1) < length (pending p)" by simp
    ultimately show ?thesis using less(1) [OF _ st, of sel] by simp
  next
    case eof
    then have "Parse_loop p sel = (sel, None)" "Parse_loop q sel = (sel, None)"
      using a b by (subst Parse_loop.simps, simp)+
    then show ?thesis by simp
  next
    case illegal
    then have "Parse_loop p sel = (sel, Some IllegalToken)" "Parse_loop q sel = (sel, Some IllegalToken)"
      using a b by (subst Parse_loop.simps, simp)+
    then show ?thesis by simp
  next
    case excl
    from parseNotExistsRequirement_same [OF assms(1) st] obtain req err p2 q2 where
      ne: "parseNotExistsRequirement p1 = ((req, err), p2)"
          "parseNotExistsRequirement q1 = ((req, err), q2)" "same_tokens f p2 q2"
      by (metis surj_pair)
    show ?thesis
    proof (cases err)
      case (Some e)
      with excl a b ne have "Parse_loop p sel = (sel, Some e)" "Parse_loop q sel = (sel, Some e)"
        by (subst Parse_loop.simps, simp)+
      then show ?thesis by simp
    next
      case None
      let ?sel = "sel\<lparr>Requirements := Requirements sel @ [req]\<rparr>"
      from None excl a b ne
      have "Parse_loop p sel = Parse_loop p2 ?sel" "Parse_loop q sel = Parse_loop q2 ?sel"
        by (subst Parse_loop.simps, simp)+
      moreover from parseNotExistsRequirement_le [OF ne(1)] sh excl
      have "length (pending p2) < length (pending p)" by simp
      ultimately show ?thesis using less(1) [OF _ ne(3), of ?sel] by simp
    qed
  next
    case ident
    from lt ident assms(1) have key: "l2 = l1" by simp
    obtain t1' l1' p2 where a': "Parser_next p1 = (t1', l1', p2)" by (cases "Parser_next p1")
    obtain t2' l2' q2 where b0': "Parser_next q1 = (t2', l2', q2)" by (cases "Parser_next q1")
    from Parser_next_same_tokens [OF st a' b0']
    have t': "t2' = t1'" and lt': "f t1' l1' = f t1' l2'" and st': "same_tokens f p2 q2" by auto
    from b0' t' have b': "Parser_next q1 = (t1', l2', q2)" by simp
    from Parse_switch_same [OF assms(1) st' lt', of l1]
    consider (inl) e1 e2 where "Parse_switch l1 t1' l1' p2 = Inl e1" "Parse_switch l1 t1' l2' q2 = Inl e2"
        "same_error f (Some e1) (Some e2)"
      | (inr) req e1 e2 p3 q3 where "Parse_switch l1 t1' l1' p2 = Inr ((req, e1), p3)"
        "Parse_switch l1 t1' l2' q2 = Inr ((req, e2), q3)" "same_error f e1 e2" "same_tokens f p3 q3"
      by blast
    then show ?thesis
    proof cases
      case inl
      with ident a b a' b' key
      have "Parse_loop p sel = (sel, Some e1)" "Parse_loop q sel = (sel, Some e2)"
        by (subst Parse_loop.simps, simp)+
      with inl(3) show ?thesis by simp
    next
      case inr
      show ?thesis
      proof (cases e1)
        case None
        with inr(3) have e2: "e2 = None" by simp
        let ?sel = "sel\<lparr>Requirements := Requirements sel @ [req]\<rparr>"
        from None e2 inr ident a b a' b' key
        have "Parse_loop p sel = Parse_loop p3 ?sel" "Parse_loop q sel = Parse_loop q3 ?sel"
          by (subst Parse_loop.simps, simp)+
        moreover from Parse_switch_le [OF inr(1)] Parser_next_le [OF a'] sh ident
        have "length (pending p3) < length (pending p)" by simp
        ultimately show ?thesis using less(1) [OF _ inr(4), of ?sel] by simp
      next
        case (Some e)
        with inr(3) obtain e' where e2: "e2 = Some e'" by (cases e2) auto
        from Some e2 inr ident a b a' b' key
        have "Parse_loop p sel = (sel, e1)" "Parse_loop q sel = (sel, e2)"
          by (subst Parse_loop.simps, simp)+
        with inr(3) show ?thesis by simp
      qed
    qed
  next
    case other
    then have "Parse_loop p sel = Parse_loop p1 sel" "Parse_loop q sel = Parse_loop q1 sel"
      using a b by (subst Parse_loop.simps, simp)+
    moreover from sh other have "length (pending p1) < length (pending p)" by simp
    ultimately show ?thesis using less(1) [OF _ st, of sel] by simp
  qed
qed

text \<open>
  The literal of an \<^verbatim>\<open>EQUAL\<close> or \<^verbatim>\<open>EXCLAMATION_MARK\<close> token is forgotten; that of any other
  token is kept.
\<close>

definition forget_operator_literal :: "Token \<Rightarrow> gostring \<Rightarrow> gostring" where
  "forget_operator_literal tok lit = (if tok = EQUAL \<or> tok = EXCLAMATION_MARK then [] else lit)"

text \<open>The literal that an error message quotes is forgotten.\<close>

fun forget_error_literal :: "error \<Rightarrow> error" where
  "forget_error_literal (UnexpectedToken lit) = UnexpectedToken []"
| "forget_error_literal (UnexpectedTokenInValueList lit) = UnexpectedTokenInValueList []"
| "forget_error_literal (RequireInAfterNot lit) = RequireInAfterNot []"
| "forget_error_literal e = e"

lemma same_error_exact:
  "same_error (\<lambda>tok lit. lit) e1 e2 \<Longrightarrow> e1 = e2"
  by (auto simp: same_error_def)

lemma same_error_forget:
  "same_error f e1 e2 \<Longrightarrow> map_option forget_error_literal e1 = map_option forget_error_literal e2"
  by (auto simp: same_error_def)

lemma tokens_same_pending:
  "pending s = pending t \<Longrightarrow> tokens s = tokens t"
  by (subst tokens.simps, subst (2) tokens.simps) (simp add: Next_same_pending [of s t])

text \<open>A run of whitespace before a token adds nothing to what the parser sees.\<close>

lemma significant_skip_whitespace:
  assumes "\<forall>c\<in>set w. isWhitespace c" and "pending s = w @ rest" and "pending t = rest"
    and "rest = [] \<or> \<not> isWhitespace (hd rest) \<and> hd rest \<noteq> eof"
  shows "significant s = significant t"
proof (cases "w = []")
  case True
  with assms(2,3) tokens_same_pending [of s t] show ?thesis by (simp add: significant_def)
next
  case False
  from Next_whitespace_run [OF assms(2) False assms(1,4)]
  have n: "Next s = (WS, w, \<lparr>pending = rest, unreadable = None\<rparr>)" .
  from False assms(2) have "pending s \<noteq> []" by simp
  from tokens_Cons [OF this n]
  have "significant s = significant \<lparr>pending = rest, unreadable = None\<rparr>"
    by (simp add: significant_def)
  also have "\<dots> = significant t"
    using tokens_same_pending [of "\<lparr>pending = rest, unreadable = None\<rparr>" t] assms(3)
    by (simp add: significant_def)
  finally show ?thesis .
qed

section \<open>Where tokens start\<close>


lemma scanWhitespace_loop_suffix:
  "\<exists>c. pending s = c @ pending (snd (scanWhitespace_loop b s))"
proof (induction "pending s" arbitrary: b s)
  case Nil
  then have "pending s = []" by simp
  then show ?case by (subst scanWhitespace_loop.simps) (simp add: read_Nil)
next
  case (Cons x xs)
  then have p: "pending s = x # xs" by simp
  let ?s1 = "\<lparr>pending = xs, unreadable = Some x\<rparr>"
  have "\<exists>c. pending ?s1 = c @ pending (snd (scanWhitespace_loop (b @ [x]) ?s1))"
    by (rule Cons(1)) simp
  then obtain c where "xs = c @ pending (snd (scanWhitespace_loop (b @ [x]) ?s1))" by auto
  then have "x # xs = (x # c) @ pending (snd (scanWhitespace_loop (b @ [x]) ?s1))" by simp
  then have r: "\<exists>c. x # xs = c @ pending (snd (scanWhitespace_loop (b @ [x]) ?s1))" by blast
  have e: "\<exists>c. x # xs = c @ xs" by (rule exI [of _ "[x]"]) simp
  show ?case
    using r e by (subst scanWhitespace_loop.simps) (simp add: read_Cons [OF p] p)
qed

lemma scanIdent_loop_suffix:
  "\<exists>c. pending s = c @ pending (snd (scanIdent_loop b s))"
proof (induction "pending s" arbitrary: b s)
  case Nil
  then have "pending s = []" by simp
  then show ?case by (subst scanIdent_loop.simps) (simp add: read_Nil)
next
  case (Cons x xs)
  then have p: "pending s = x # xs" by simp
  let ?s1 = "\<lparr>pending = xs, unreadable = Some x\<rparr>"
  have "\<exists>c. pending ?s1 = c @ pending (snd (scanIdent_loop (b @ [x]) ?s1))"
    by (rule Cons(1)) simp
  then obtain c where "xs = c @ pending (snd (scanIdent_loop (b @ [x]) ?s1))" by auto
  then have "x # xs = (x # c) @ pending (snd (scanIdent_loop (b @ [x]) ?s1))" by simp
  then have r: "\<exists>c. x # xs = c @ pending (snd (scanIdent_loop (b @ [x]) ?s1))" by blast
  have e: "\<exists>c. x # xs = c @ xs" by (rule exI [of _ "[x]"]) simp
  show ?case
    using r e by (subst scanIdent_loop.simps) (simp add: read_Cons [OF p] p)
qed

lemma scanQuotedIdent_loop_suffix:
  "\<exists>c. pending s = c @ pending (snd (scanQuotedIdent_loop b l s))"
proof (induction "pending s" arbitrary: b l s)
  case Nil
  then have "pending s = []" by simp
  then show ?case by (subst scanQuotedIdent_loop.simps) (simp add: read_Nil)
next
  case (Cons x xs)
  then have p: "pending s = x # xs" by simp
  let ?s1 = "\<lparr>pending = xs, unreadable = Some x\<rparr>"
  have "\<exists>c. pending ?s1 = c @ pending (snd (scanQuotedIdent_loop (b @ [x]) x ?s1))"
    by (rule Cons(1)) simp
  then obtain c where "xs = c @ pending (snd (scanQuotedIdent_loop (b @ [x]) x ?s1))" by auto
  then have "x # xs = (x # c) @ pending (snd (scanQuotedIdent_loop (b @ [x]) x ?s1))" by simp
  then have r: "\<exists>c. x # xs = c @ pending (snd (scanQuotedIdent_loop (b @ [x]) x ?s1))" by blast
  have e: "\<exists>c. x # xs = c @ xs" by (rule exI [of _ "[x]"]) simp
  show ?case
    using r e by (subst scanQuotedIdent_loop.simps) (simp add: read_Cons [OF p] p)
qed

text \<open>What \<^verbatim>\<open>Next\<close> leaves unread is the end of what it found.\<close>

lemma Next_suffix:
  assumes "Next s = (tok, lit, s')"
  shows "\<exists>c. pending s = c @ pending s'"
proof (cases "pending s")
  case Nil
  with assms show ?thesis by (auto simp: Next_Nil)
next
  case (Cons x xs)
  let ?s1 = "\<lparr>pending = xs, unreadable = Some x\<rparr>"
  have r: "read s = (x, ?s1)" using Cons by (rule read_Cons)
  have one: "\<And>u. pending u = xs \<Longrightarrow> \<exists>c. x # xs = c @ pending u"
    by (metis append_Cons append_Nil)
  have all: "\<And>u. pending u = x # xs \<Longrightarrow> \<exists>c. x # xs = c @ pending u"
    by (metis append_Nil)
  have two: "\<And>u c'. xs = c' @ pending u \<Longrightarrow> \<exists>c. x # xs = c @ pending u"
    by (metis append_Cons)
  consider (ws) "isWhitespace x"
    | (id) "\<not> isWhitespace x" "isValidIdentRune x"
    | (qu) "\<not> isWhitespace x" "\<not> isValidIdentRune x" "x = rune_of CHR 0x22"
    | (other) "\<not> isWhitespace x" "\<not> isValidIdentRune x" "x \<noteq> rune_of CHR 0x22"
    by blast
  then show ?thesis
  proof cases
    case ws
    obtain c where "xs = c @ pending (snd (scanWhitespace_loop [x] ?s1))"
      using scanWhitespace_loop_suffix [of ?s1 "[x]"] by auto
    moreover have "s' = snd (scanWhitespace_loop [x] ?s1)"
      using ws assms r by (simp add: Next_def scanWhitespace_def split: prod.splits)
    ultimately show ?thesis using Cons two by simp
  next
    case id
    obtain c where "xs = c @ pending (snd (scanIdent_loop [x] ?s1))"
      using scanIdent_loop_suffix [of ?s1 "[x]"] by auto
    moreover have "s' = snd (scanIdent_loop [x] ?s1)"
      using id assms r by (auto simp: Next_def scanIdent_def split: prod.splits if_splits)
    ultimately show ?thesis using Cons two by simp
  next
    case qu
    obtain c where "xs = c @ pending (snd (scanQuotedIdent_loop [] 0 ?s1))"
      using scanQuotedIdent_loop_suffix [of ?s1 "[]" 0] by auto
    moreover have "s' = snd (scanQuotedIdent_loop [] 0 ?s1)"
      using qu assms r by (simp add: Next_def scanQuotedIdent_def split: prod.splits)
    ultimately show ?thesis using Cons two by simp
  next
    case other
    obtain x' s2 where r2: "read ?s1 = (x', s2)" by (cases "read ?s1")
    have "\<exists>c'. xs = c' @ pending s2" using r2 by (auto simp: read_def split: list.splits)
    moreover have "pending (unread s2) = xs" using read_unread_pending [OF r2] by simp
    moreover have "s' = ?s1 \<or> s' = s2 \<or> s' = unread s2"
      using other assms r r2 by (auto simp: Next_def split: if_splits)
    ultimately show ?thesis using Cons one two by auto
  qed
qed

text \<open>
  The inputs left at the points where the lexer starts a token, from the first call of
  \<^verbatim>\<open>Next\<close> to the call that finds the input used up.
\<close>

function token_starts :: "Lexer \<Rightarrow> gostring list" where
  "token_starts s =
     pending s #
     (if pending s = [] then []
      else case Next s of (tok, lit, s') \<Rightarrow> token_starts s')"
  by pat_completeness auto
termination
proof (relation "measure (\<lambda>s. length (pending s))", goal_cases)
  case 1
  show ?case by simp
next
  case (2 s x y lit s')
  then have "Next s = (x, lit, s')" "pending s \<noteq> []" by simp_all
  from Next_consumes [OF this] show ?case by simp
qed

declare token_starts.simps [simp del]

lemma token_starts_Nil: "pending s = [] \<Longrightarrow> token_starts s = [[]]"
  by (subst token_starts.simps) simp

lemma token_starts_Cons:
  "pending s \<noteq> [] \<Longrightarrow> Next s = (tok, lit, s') \<Longrightarrow> token_starts s = pending s # token_starts s'"
  by (subst token_starts.simps) simp

lemma token_starts_same_pending:
  "pending s = pending t \<Longrightarrow> token_starts s = token_starts t"
  by (subst token_starts.simps [of s], subst token_starts.simps [of t])
     (simp add: Next_same_pending [of s t])

lemma token_starts_first: "pending s \<in> set (token_starts s)"
  by (subst token_starts.simps) simp

lemma token_starts_suffix:
  "Z \<in> set (token_starts s) \<Longrightarrow> \<exists>q. pending s = q @ Z"
proof (induction "length (pending s)" arbitrary: s rule: less_induct)
  case less
  show ?case
  proof (cases "pending s = []")
    case True
    with less(2) show ?thesis by (simp add: token_starts_Nil)
  next
    case False
    obtain tok lit s' where n: "Next s = (tok, lit, s')" by (cases "Next s")
    from less(2) token_starts_Cons [OF False n]
    consider "Z = pending s" | "Z \<in> set (token_starts s')" by auto
    then show ?thesis
    proof cases
      case 1
      then show ?thesis by simp
    next
      case 2
      from less(1) [OF Next_consumes [OF n False] 2] obtain q where "pending s' = q @ Z" by auto
      moreover from Next_suffix [OF n] obtain c where "pending s = c @ pending s'" by auto
      ultimately have "pending s = (c @ q) @ Z" by simp
      then show ?thesis by blast
    qed
  qed
qed



section \<open>Keys of requirements\<close>
















section \<open>A token and the runes after it\<close>


lemma Cons_append_not_self: "a # c @ X \<noteq> X"
proof
  assume "a # c @ X = X"
  then have "length (a # c @ X) = length X" by simp
  then show False by simp
qed

lemma scanIdent_loop_consumed:
  assumes "pending s = c @ X" and "scanIdent_loop b s = (lit, s')" and "pending s' = X"
  shows "(\<forall>x\<in>set c. isValidIdentRune x) \<and> lit = b @ c \<and>
           (X = [] \<or> \<not> isValidIdentRune (hd X) \<and> hd X \<noteq> eof) \<or>
         (\<exists>k. c = k @ [eof] \<and> (\<forall>x\<in>set k. isValidIdentRune x) \<and> lit = b @ k)"
  using assms
proof (induction c arbitrary: b s)
  case Nil
  then have p: "pending s = X" by simp
  show ?case
  proof (cases X)
    case Nil
    with p Nil.prems(2) have "lit = b"
      by (subst (asm) scanIdent_loop.simps) (simp add: read_Nil)
    with Nil show ?thesis by simp
  next
    case (Cons x xs)
    let ?s1 = "\<lparr>pending = xs, unreadable = Some x\<rparr>"
    have step: "scanIdent_loop b s =
        (if x = eof then (b, ?s1) else if \<not> isValidIdentRune x then (b, unread ?s1)
         else scanIdent_loop (b @ [x]) ?s1)"
      using p Cons by (subst scanIdent_loop.simps) (simp add: read_def)
    have le: "length (pending (snd (scanIdent_loop (b @ [x]) ?s1))) \<le> length xs"
      using scanIdent_loop_le [of "b @ [x]" ?s1] by simp
    have ne: "x \<noteq> eof"
    proof
      assume "x = eof"
      with step Nil.prems(2) have "s' = ?s1" by simp
      with Nil.prems(3) Cons show False by simp
    qed
    have nv: "\<not> isValidIdentRune x"
    proof
      assume "isValidIdentRune x"
      with ne step Nil.prems(2) have "scanIdent_loop (b @ [x]) ?s1 = (lit, s')" by simp
      with le have "length (pending s') \<le> length xs" by simp
      with Nil.prems(3) Cons show False by simp
    qed
    from ne nv step Nil.prems(2) have "lit = b" by simp
    with ne nv Cons show ?thesis by simp
  qed
next
  case (Cons a c)
  let ?s1 = "\<lparr>pending = c @ X, unreadable = Some a\<rparr>"
  from Cons.prems(1) have p: "pending s = a # (c @ X)" by simp
  have step: "scanIdent_loop b s =
      (if a = eof then (b, ?s1) else if \<not> isValidIdentRune a then (b, unread ?s1)
       else scanIdent_loop (b @ [a]) ?s1)"
    by (subst scanIdent_loop.simps) (simp add: read_Cons [OF p])
  show ?case
  proof (cases "a = eof")
    case True
    from True step Cons.prems(2) have e: "lit = b" "s' = ?s1" by simp_all
    with Cons.prems(3) have "c @ X = X" by simp
    then have "c = []" by simp
    with True e have "a # c = [] @ [eof] \<and> (\<forall>x\<in>set []. isValidIdentRune x) \<and> lit = b @ []" by simp
    then show ?thesis by (intro disjI2 exI [of _ "[]"])
  next
    case False
    show ?thesis
    proof (cases "isValidIdentRune a")
      case v: False
      with False step Cons.prems(2) have "s' = unread ?s1" by simp
      with Cons.prems(3) have "a # c @ X = X" by simp
      with Cons_append_not_self [of a c X] show ?thesis by simp
    next
      case True
      with False step Cons.prems(2) have r: "scanIdent_loop (b @ [a]) ?s1 = (lit, s')" by simp
      from Cons.IH [OF _ r Cons.prems(3)]
      consider "(\<forall>x\<in>set c. isValidIdentRune x)" "lit = (b @ [a]) @ c"
          "X = [] \<or> \<not> isValidIdentRune (hd X) \<and> hd X \<noteq> eof"
        | k where "c = k @ [eof]" "\<forall>x\<in>set k. isValidIdentRune x" "lit = (b @ [a]) @ k"
        by auto
      then show ?thesis
      proof cases
        case 1
        with True show ?thesis by simp
      next
        case 2
        then have "a # c = (a # k) @ [eof] \<and> (\<forall>x\<in>set (a # k). isValidIdentRune x) \<and> lit = b @ (a # k)"
          using True by simp
        then show ?thesis by (intro disjI2 exI [of _ "a # k"])
      qed
    qed
  qed
qed

lemma scanWhitespace_loop_consumed:
  assumes "pending s = c @ X" and "scanWhitespace_loop b s = (lit, s')" and "pending s' = X"
  shows "(\<forall>x\<in>set c. isWhitespace x) \<and> lit = b @ c \<and>
           (X = [] \<or> \<not> isWhitespace (hd X) \<and> hd X \<noteq> eof) \<or>
         (\<exists>k. c = k @ [eof] \<and> (\<forall>x\<in>set k. isWhitespace x) \<and> lit = b @ k)"
  using assms
proof (induction c arbitrary: b s)
  case Nil
  then have p: "pending s = X" by simp
  show ?case
  proof (cases X)
    case Nil
    with p Nil.prems(2) have "lit = b"
      by (subst (asm) scanWhitespace_loop.simps) (simp add: read_Nil)
    with Nil show ?thesis by simp
  next
    case (Cons x xs)
    let ?s1 = "\<lparr>pending = xs, unreadable = Some x\<rparr>"
    have step: "scanWhitespace_loop b s =
        (if x = eof then (b, ?s1) else if \<not> isWhitespace x then (b, unread ?s1)
         else scanWhitespace_loop (b @ [x]) ?s1)"
      using p Cons by (subst scanWhitespace_loop.simps) (simp add: read_def)
    have le: "length (pending (snd (scanWhitespace_loop (b @ [x]) ?s1))) \<le> length xs"
      using scanWhitespace_loop_le [of "b @ [x]" ?s1] by simp
    have ne: "x \<noteq> eof"
    proof
      assume "x = eof"
      with step Nil.prems(2) have "s' = ?s1" by simp
      with Nil.prems(3) Cons show False by simp
    qed
    have nv: "\<not> isWhitespace x"
    proof
      assume "isWhitespace x"
      with ne step Nil.prems(2) have "scanWhitespace_loop (b @ [x]) ?s1 = (lit, s')" by simp
      with le have "length (pending s') \<le> length xs" by simp
      with Nil.prems(3) Cons show False by simp
    qed
    from ne nv step Nil.prems(2) have "lit = b" by simp
    with ne nv Cons show ?thesis by simp
  qed
next
  case (Cons a c)
  let ?s1 = "\<lparr>pending = c @ X, unreadable = Some a\<rparr>"
  from Cons.prems(1) have p: "pending s = a # (c @ X)" by simp
  have step: "scanWhitespace_loop b s =
      (if a = eof then (b, ?s1) else if \<not> isWhitespace a then (b, unread ?s1)
       else scanWhitespace_loop (b @ [a]) ?s1)"
    by (subst scanWhitespace_loop.simps) (simp add: read_Cons [OF p])
  show ?case
  proof (cases "a = eof")
    case True
    from True step Cons.prems(2) have e: "lit = b" "s' = ?s1" by simp_all
    with Cons.prems(3) have "c @ X = X" by simp
    then have "c = []" by simp
    with True e have "a # c = [] @ [eof] \<and> (\<forall>x\<in>set []. isWhitespace x) \<and> lit = b @ []" by simp
    then show ?thesis by (intro disjI2 exI [of _ "[]"])
  next
    case False
    show ?thesis
    proof (cases "isWhitespace a")
      case v: False
      with False step Cons.prems(2) have "s' = unread ?s1" by simp
      with Cons.prems(3) have "a # c @ X = X" by simp
      with Cons_append_not_self [of a c X] show ?thesis by simp
    next
      case True
      with False step Cons.prems(2) have r: "scanWhitespace_loop (b @ [a]) ?s1 = (lit, s')" by simp
      from Cons.IH [OF _ r Cons.prems(3)]
      consider "(\<forall>x\<in>set c. isWhitespace x)" "lit = (b @ [a]) @ c"
          "X = [] \<or> \<not> isWhitespace (hd X) \<and> hd X \<noteq> eof"
        | k where "c = k @ [eof]" "\<forall>x\<in>set k. isWhitespace x" "lit = (b @ [a]) @ k"
        by auto
      then show ?thesis
      proof cases
        case 1
        with True show ?thesis by simp
      next
        case 2
        then have "a # c = (a # k) @ [eof] \<and> (\<forall>x\<in>set (a # k). isWhitespace x) \<and> lit = b @ (a # k)"
          using True by simp
        then show ?thesis by (intro disjI2 exI [of _ "a # k"])
      qed
    qed
  qed
qed

lemma scanIdent_loop_run_eof:
  assumes "pending s = k @ eof # Y" and "\<forall>x\<in>set k. isValidIdentRune x"
  shows "scanIdent_loop b s = (b @ k, \<lparr>pending = Y, unreadable = Some eof\<rparr>)"
  using assms
proof (induction k arbitrary: b s)
  case Nil
  then have p: "pending s = eof # Y" by simp
  show ?case by (subst scanIdent_loop.simps) (simp add: read_Cons [OF p])
next
  case (Cons a k)
  from Cons.prems have p: "pending s = a # (k @ eof # Y)" and a: "isValidIdentRune a" by simp_all
  let ?s1 = "\<lparr>pending = k @ eof # Y, unreadable = Some a\<rparr>"
  have "scanIdent_loop (b @ [a]) ?s1 = ((b @ [a]) @ k, \<lparr>pending = Y, unreadable = Some eof\<rparr>)"
    using Cons.prems by (intro Cons.IH) simp_all
  then show ?case
    using a ValidIdentRune_not_eof [OF a]
    by (subst scanIdent_loop.simps) (simp add: read_Cons [OF p])
qed

lemma scanWhitespace_loop_run_eof:
  assumes "pending s = k @ eof # Y" and "\<forall>x\<in>set k. isWhitespace x"
  shows "scanWhitespace_loop b s = (b @ k, \<lparr>pending = Y, unreadable = Some eof\<rparr>)"
  using assms
proof (induction k arbitrary: b s)
  case Nil
  then have p: "pending s = eof # Y" by simp
  show ?case by (subst scanWhitespace_loop.simps) (simp add: read_Cons [OF p])
next
  case (Cons a k)
  from Cons.prems have p: "pending s = a # (k @ eof # Y)" and a: "isWhitespace a" by simp_all
  let ?s1 = "\<lparr>pending = k @ eof # Y, unreadable = Some a\<rparr>"
  have "scanWhitespace_loop (b @ [a]) ?s1 = ((b @ [a]) @ k, \<lparr>pending = Y, unreadable = Some eof\<rparr>)"
    using Cons.prems by (intro Cons.IH) simp_all
  then show ?case
    using a Whitespace_not_eof [OF a]
    by (subst scanWhitespace_loop.simps) (simp add: read_Cons [OF p])
qed

lemma scanQuotedIdent_loop_local:
  assumes "pending s = c @ X" and "scanQuotedIdent_loop b l s = (lit, s')" and "pending s' = X"
    and "X \<noteq> []" and "pending t = c @ Y"
  shows "\<exists>t'. scanQuotedIdent_loop b l t = (lit, t') \<and> pending t' = Y"
  using assms
proof (induction c arbitrary: b l s t)
  case Nil
  then obtain x xs where X: "X = x # xs" and p: "pending s = x # xs" by (cases X) auto
  let ?s1 = "\<lparr>pending = xs, unreadable = Some x\<rparr>"
  have step: "scanQuotedIdent_loop b l s =
      (if x = eof \<or> (x = rune_of CHR 0x22 \<and> l \<noteq> rune_of CHR 0x5C) then (b, ?s1)
       else scanQuotedIdent_loop (b @ [x]) x ?s1)"
    by (subst scanQuotedIdent_loop.simps) (simp add: read_Cons [OF p])
  have le: "length (pending (snd (scanQuotedIdent_loop (b @ [x]) x ?s1))) \<le> length xs"
    using scanQuotedIdent_loop_le [of "b @ [x]" x ?s1] by simp
  have "length (pending s') \<le> length xs"
  proof (cases "x = eof \<or> (x = rune_of CHR 0x22 \<and> l \<noteq> rune_of CHR 0x5C)")
    case True
    with step Nil.prems(2) have "s' = ?s1" by auto
    then show ?thesis by simp
  next
    case False
    with step Nil.prems(2) have "scanQuotedIdent_loop (b @ [x]) x ?s1 = (lit, s')" by auto
    with le show ?thesis by simp
  qed
  with Nil.prems(3) X show ?case by simp
next
  case (Cons a c)
  from Cons.prems have p: "pending s = a # (c @ X)" and q: "pending t = a # (c @ Y)" by simp_all
  let ?s1 = "\<lparr>pending = c @ X, unreadable = Some a\<rparr>"
  let ?t1 = "\<lparr>pending = c @ Y, unreadable = Some a\<rparr>"
  have step: "scanQuotedIdent_loop b l s =
      (if a = eof \<or> (a = rune_of CHR 0x22 \<and> l \<noteq> rune_of CHR 0x5C) then (b, ?s1)
       else scanQuotedIdent_loop (b @ [a]) a ?s1)"
    by (subst scanQuotedIdent_loop.simps) (simp add: read_Cons [OF p])
  have stept: "scanQuotedIdent_loop b l t =
      (if a = eof \<or> (a = rune_of CHR 0x22 \<and> l \<noteq> rune_of CHR 0x5C) then (b, ?t1)
       else scanQuotedIdent_loop (b @ [a]) a ?t1)"
    by (subst scanQuotedIdent_loop.simps) (simp add: read_Cons [OF q])
  show ?case
  proof (cases "a = eof \<or> (a = rune_of CHR 0x22 \<and> l \<noteq> rune_of CHR 0x5C)")
    case True
    from True step Cons.prems(2) have e: "lit = b" "s' = ?s1" by auto
    with Cons.prems(3) have "c @ X = X" by simp
    then have "c = []" by simp
    with True stept e show ?thesis by auto
  next
    case False
    with step Cons.prems(2) have r: "scanQuotedIdent_loop (b @ [a]) a ?s1 = (lit, s')" by auto
    from Cons.IH [OF _ r Cons.prems(3,4), of ?t1] False stept show ?thesis by auto
  qed
qed


lemma Next_whitespace_unfold:
  assumes "pending s = a # r" and "isWhitespace a"
  shows "Next s = (case scanWhitespace_loop [a] \<lparr>pending = r, unreadable = Some a\<rparr> of
                     (b, s2) \<Rightarrow> (WS, b, s2))"
  using assms(2) by (simp add: Next_def read_Cons [OF assms(1)] scanWhitespace_def)

lemma Next_ident_unfold:
  assumes "pending s = a # r" and "isValidIdentRune a"
  shows "Next s = (case scanIdent_loop [a] \<lparr>pending = r, unreadable = Some a\<rparr> of
                     (b, s2) \<Rightarrow>
                       if ToUpper b = runes ''NOT'' then (NOT, b, s2)
                       else if ToUpper b = runes ''IN'' then (IN, b, s2)
                       else (IDENT, b, s2))"
  using assms(2) Whitespace_not_ValidIdentRune [of a]
  by (auto simp: Next_def read_Cons [OF assms(1)] scanIdent_def)

lemma Next_quote_unfold:
  assumes "pending s = rune_of CHR 0x22 # r"
  shows "Next s = (case scanQuotedIdent_loop [] 0 \<lparr>pending = r, unreadable = Some (rune_of CHR 0x22)\<rparr> of
                     (b, s2) \<Rightarrow> (IDENT, b, s2))"
  using quote_not_ident by (simp add: Next_def read_Cons [OF assms] scanQuotedIdent_def)

text \<open>
  The runes that start a token of their own: neither whitespace, nor a rune of an
  identifier, nor the double quote.
\<close>

lemma Next_other_unfold:
  assumes "pending s = a # r" and "\<not> isWhitespace a" and "\<not> isValidIdentRune a"
    and "a \<noteq> rune_of CHR 0x22"
  shows "Next s =
     (let s1 = \<lparr>pending = r, unreadable = Some a\<rparr> in
      if a = eof then (EOF, [], s1)
      else if a = rune_of CHR ''!'' then
        (case r of
           [] \<Rightarrow> (EXCLAMATION_MARK, [eof], \<lparr>pending = [], unreadable = None\<rparr>)
         | d # r' \<Rightarrow> if d = rune_of CHR ''='' then (NOT_EQUAL, runes ''!='', \<lparr>pending = r', unreadable = Some d\<rparr>)
                     else (EXCLAMATION_MARK, [d], \<lparr>pending = d # r', unreadable = None\<rparr>))
      else if a = rune_of CHR ''='' then
        (case r of
           [] \<Rightarrow> (EQUAL, [eof], \<lparr>pending = [], unreadable = None\<rparr>)
         | d # r' \<Rightarrow> if d = rune_of CHR ''='' then (EQUAL, runes ''=='', \<lparr>pending = r', unreadable = Some d\<rparr>)
                     else (EQUAL, [d], \<lparr>pending = d # r', unreadable = None\<rparr>))
      else if a = rune_of CHR '','' then (COMMA, [a], s1)
      else if a = rune_of CHR ''('' then (OPENING_BRACKET, [a], s1)
      else if a = rune_of CHR '')'' then (CLOSING_BRACKET, [a], s1)
      else (ILLEGAL, [a], s1))"
  using assms(2-4)
  by (cases r) (simp_all add: Next_def read_Cons [OF assms(1)] Let_def eof_def)


lemma equal_not_whitespace: "isWhitespace x \<Longrightarrow> x \<noteq> rune_of CHR ''=''"
  using equals_not_ident(1) by auto

text \<open>
  A token is read the same way from two inputs that agree on the runes the token takes
  and on the one rune after them.
\<close>

lemma Next_local:
  assumes p: "pending s = c @ X" and c: "c \<noteq> []" and n: "Next s = (tok, lit, s')"
    and x: "pending s' = X" and X: "X \<noteq> []" and q: "pending t = c @ Y" and Y: "Y \<noteq> []"
    and hd: "hd X = hd Y"
  shows "\<exists>t'. Next t = (tok, lit, t') \<and> pending t' = Y"
proof -
  from c obtain a c' where c': "c = a # c'" by (cases c) auto
  let ?s1 = "\<lparr>pending = c' @ X, unreadable = Some a\<rparr>"
  let ?t1 = "\<lparr>pending = c' @ Y, unreadable = Some a\<rparr>"
  from p c' have ps: "pending s = a # (c' @ X)" by simp
  from q c' have pt: "pending t = a # (c' @ Y)" by simp
  consider (ws) "isWhitespace a"
    | (id) "\<not> isWhitespace a" "isValidIdentRune a"
    | (qu) "\<not> isWhitespace a" "\<not> isValidIdentRune a" "a = rune_of CHR 0x22"
    | (other) "\<not> isWhitespace a" "\<not> isValidIdentRune a" "a \<noteq> rune_of CHR 0x22"
    by blast
  then show ?thesis
  proof cases
    case ws
    from n Next_whitespace_unfold [OF ps ws]
    have tok: "tok = WS" and l: "scanWhitespace_loop [a] ?s1 = (lit, s')"
      by (auto split: prod.splits)
    from scanWhitespace_loop_consumed [OF _ l x]
    consider "\<forall>x\<in>set c'. isWhitespace x" "lit = [a] @ c'" "\<not> isWhitespace (hd X) \<and> hd X \<noteq> eof"
      | k where "c' = k @ [eof]" "\<forall>x\<in>set k. isWhitespace x" "lit = [a] @ k"
      using X by auto
    then have "\<exists>t'. scanWhitespace_loop [a] ?t1 = (lit, t') \<and> pending t' = Y"
    proof cases
      case 1
      with hd Y have "scanWhitespace_loop [a] ?t1 = ([a] @ c', \<lparr>pending = Y, unreadable = None\<rparr>)"
        by (intro scanWhitespace_loop_run) simp_all
      with 1 show ?thesis by simp
    next
      case 2
      then have "scanWhitespace_loop [a] ?t1 = ([a] @ k, \<lparr>pending = Y, unreadable = Some eof\<rparr>)"
        by (intro scanWhitespace_loop_run_eof) simp_all
      with 2 show ?thesis by simp
    qed
    with tok Next_whitespace_unfold [OF pt ws] show ?thesis by auto
  next
    case id
    obtain b s2 where l: "scanIdent_loop [a] ?s1 = (b, s2)" by (cases "scanIdent_loop [a] ?s1")
    with n Next_ident_unfold [OF ps id(2)]
    have tok: "tok = (if ToUpper b = runes ''NOT'' then NOT else if ToUpper b = runes ''IN'' then IN else IDENT)"
      and e: "lit = b" "s' = s2"
      by (auto split: if_splits)
    from e x have x2: "pending s2 = X" by simp
    from scanIdent_loop_consumed [OF _ l x2]
    consider "\<forall>x\<in>set c'. isValidIdentRune x" "b = [a] @ c'" "\<not> isValidIdentRune (hd X) \<and> hd X \<noteq> eof"
      | k where "c' = k @ [eof]" "\<forall>x\<in>set k. isValidIdentRune x" "b = [a] @ k"
      using X by auto
    then have "\<exists>t'. scanIdent_loop [a] ?t1 = (b, t') \<and> pending t' = Y"
    proof cases
      case 1
      with hd Y have "scanIdent_loop [a] ?t1 = ([a] @ c', \<lparr>pending = Y, unreadable = None\<rparr>)"
        by (intro scanIdent_loop_run) simp_all
      with 1 show ?thesis by simp
    next
      case 2
      then have "scanIdent_loop [a] ?t1 = ([a] @ k, \<lparr>pending = Y, unreadable = Some eof\<rparr>)"
        by (intro scanIdent_loop_run_eof) simp_all
      with 2 show ?thesis by simp
    qed
    with tok e Next_ident_unfold [OF pt id(2)] show ?thesis by auto
  next
    case qu
    from ps pt qu have ps': "pending s = rune_of CHR 0x22 # (c' @ X)"
      and pt': "pending t = rune_of CHR 0x22 # (c' @ Y)" by simp_all
    from n Next_quote_unfold [OF ps'] qu
    have tok: "tok = IDENT" and l: "scanQuotedIdent_loop [] 0 ?s1 = (lit, s')"
      by (auto split: prod.splits)
    from scanQuotedIdent_loop_local [OF _ l x X, of c' ?t1 Y]
    obtain t' where "scanQuotedIdent_loop [] 0 ?t1 = (lit, t')" "pending t' = Y" by auto
    with tok Next_quote_unfold [OF pt'] qu show ?thesis by auto
  next
    case other
    note us = Next_other_unfold [OF ps other] and ut = Next_other_unfold [OF pt other]
    show ?thesis
    proof (cases c')
      case Nil
      from X obtain x0 X' where X': "X = x0 # X'" by (cases X) auto
      from Y hd X' obtain Y' where Y': "Y = x0 # Y'" by (cases Y) auto
      show ?thesis
        using n x us ut Nil X' Y'
        by (auto simp: Let_def split: if_splits)
    next
      case (Cons d c'')
      have nself: "d # c'' @ X \<noteq> X" by (rule Cons_append_not_self)
      have k: "pending (snd (snd (Next s))) = X" using n x by simp
      have shape: "(a = rune_of CHR ''!'' \<or> a = rune_of CHR ''='') \<and> d = rune_of CHR ''='' \<and> c'' = []"
        using k nself unfolding us Cons by (auto simp: Let_def split: if_splits)
      with n us ut Cons show ?thesis
        by (auto simp: Let_def eof_def)
    qed
  qed
qed


text \<open>
  A token that whitespace follows is read the same way, but for the literal of a single
  \<^verbatim>\<open>=\<close> or \<^verbatim>\<open>!\<close>, when something else follows it that neither goes on the token nor is
  taken for the end of the input.
\<close>

lemma Next_before_whitespace:
  assumes p: "pending s = c @ X" and c: "c \<noteq> []" and n: "Next s = (tok, lit, s')"
    and x: "pending s' = X" and X: "X \<noteq> []" and wx: "isWhitespace (hd X)"
    and q: "pending t = c @ Y"
    and Y1: "Y = [] \<or> hd Y \<noteq> eof"
    and Y2: "\<not> (isValidIdentRune (last c) \<and> Y \<noteq> [] \<and> isValidIdentRune (hd Y))"
    and Y3: "\<not> ((c = [rune_of CHR ''=''] \<or> c = [rune_of CHR ''!'']) \<and> Y \<noteq> [] \<and> hd Y = rune_of CHR ''='')"
  shows "\<exists>lit' t'. Next t = (tok, lit', t') \<and> pending t' = Y \<and>
           (if c = [rune_of CHR ''=''] \<or> c = [rune_of CHR ''!'']
            then tok = EQUAL \<or> tok = EXCLAMATION_MARK else lit' = lit)"
proof -
  from c obtain a c' where c': "c = a # c'" by (cases c) auto
  let ?s1 = "\<lparr>pending = c' @ X, unreadable = Some a\<rparr>"
  let ?t1 = "\<lparr>pending = c' @ Y, unreadable = Some a\<rparr>"
  from p c' have ps: "pending s = a # (c' @ X)" by simp
  from q c' have pt: "pending t = a # (c' @ Y)" by simp
  have eqw: "\<not> isWhitespace (rune_of CHR ''='')" "\<not> isWhitespace (rune_of CHR ''!'')"
    by (simp_all add: isWhitespace_def)
  have eqi: "\<not> isValidIdentRune (rune_of CHR ''='')" "\<not> isValidIdentRune (rune_of CHR ''!'')"
    by (simp_all add: isValidIdentRune_def)
  consider (ws) "isWhitespace a"
    | (id) "\<not> isWhitespace a" "isValidIdentRune a"
    | (qu) "\<not> isWhitespace a" "\<not> isValidIdentRune a" "a = rune_of CHR 0x22"
    | (other) "\<not> isWhitespace a" "\<not> isValidIdentRune a" "a \<noteq> rune_of CHR 0x22"
    by blast
  then show ?thesis
  proof cases
    case ws
    then have nop: "\<not> (c = [rune_of CHR ''=''] \<or> c = [rune_of CHR ''!''])" using c' eqw by auto
    from n Next_whitespace_unfold [OF ps ws]
    have tok: "tok = WS" and l: "scanWhitespace_loop [a] ?s1 = (lit, s')"
      by (auto split: prod.splits)
    from scanWhitespace_loop_consumed [OF _ l x]
    obtain k where k: "c' = k @ [eof]" "\<forall>x\<in>set k. isWhitespace x" "lit = [a] @ k"
      using X wx by auto
    then have "scanWhitespace_loop [a] ?t1 = ([a] @ k, \<lparr>pending = Y, unreadable = Some eof\<rparr>)"
      by (intro scanWhitespace_loop_run_eof) simp_all
    with k tok Next_whitespace_unfold [OF pt ws] nop show ?thesis by auto
  next
    case id
    then have nop: "\<not> (c = [rune_of CHR ''=''] \<or> c = [rune_of CHR ''!''])" using c' eqi by auto
    obtain b s2 where l: "scanIdent_loop [a] ?s1 = (b, s2)" by (cases "scanIdent_loop [a] ?s1")
    with n Next_ident_unfold [OF ps id(2)]
    have tok: "tok = (if ToUpper b = runes ''NOT'' then NOT else if ToUpper b = runes ''IN'' then IN else IDENT)"
      and e: "lit = b" "s' = s2"
      by (auto split: if_splits)
    from e x have x2: "pending s2 = X" by simp
    from scanIdent_loop_consumed [OF _ l x2]
    consider "\<forall>x\<in>set c'. isValidIdentRune x" "b = [a] @ c'"
      | k where "c' = k @ [eof]" "\<forall>x\<in>set k. isValidIdentRune x" "b = [a] @ k"
      by auto
    then have "\<exists>t'. scanIdent_loop [a] ?t1 = (b, t') \<and> pending t' = Y"
    proof cases
      case 1
      with id(2) c' have "isValidIdentRune (last c)" by simp
      with Y1 Y2 have "Y = [] \<or> \<not> isValidIdentRune (hd Y) \<and> hd Y \<noteq> eof" by auto
      with 1 have "scanIdent_loop [a] ?t1 = ([a] @ c', \<lparr>pending = Y, unreadable = None\<rparr>)"
        by (intro scanIdent_loop_run) simp_all
      with 1 show ?thesis by simp
    next
      case 2
      then have "scanIdent_loop [a] ?t1 = ([a] @ k, \<lparr>pending = Y, unreadable = Some eof\<rparr>)"
        by (intro scanIdent_loop_run_eof) simp_all
      with 2 show ?thesis by simp
    qed
    with tok e Next_ident_unfold [OF pt id(2)] nop show ?thesis by auto
  next
    case qu
    then have nop: "\<not> (c = [rune_of CHR ''=''] \<or> c = [rune_of CHR ''!''])" using c' by auto
    from ps pt qu have ps': "pending s = rune_of CHR 0x22 # (c' @ X)"
      and pt': "pending t = rune_of CHR 0x22 # (c' @ Y)" by simp_all
    from n Next_quote_unfold [OF ps'] qu
    have tok: "tok = IDENT" and l: "scanQuotedIdent_loop [] 0 ?s1 = (lit, s')"
      by (auto split: prod.splits)
    from scanQuotedIdent_loop_local [OF _ l x X, of c' ?t1 Y]
    obtain t' where "scanQuotedIdent_loop [] 0 ?t1 = (lit, t')" "pending t' = Y" by auto
    with tok Next_quote_unfold [OF pt'] qu nop show ?thesis by auto
  next
    case other
    note us = Next_other_unfold [OF ps other] and ut = Next_other_unfold [OF pt other]
    from X obtain x0 X' where X': "X = x0 # X'" by (cases X) auto
    from wx X' have x0: "x0 \<noteq> rune_of CHR ''=''" using eqw by auto
    show ?thesis
    proof (cases c')
      case Nil
      show ?thesis
      proof (cases Y)
        case Nil': Nil
        show ?thesis
          using n x us ut Nil X' Nil' x0 c'
          by (auto simp: Let_def eof_def split: if_splits)
      next
        case (Cons y0 Y')
        show ?thesis
          using n x us ut Nil X' Cons x0 c' Y3
          by (auto simp: Let_def eof_def split: if_splits)
      qed
    next
      case (Cons d c'')
      have nself: "d # c'' @ X \<noteq> X" by (rule Cons_append_not_self)
      have k: "pending (snd (snd (Next s))) = X" using n x by simp
      have shape: "(a = rune_of CHR ''!'' \<or> a = rune_of CHR ''='') \<and> d = rune_of CHR ''='' \<and> c'' = []"
        using k nself unfolding us Cons by (auto simp: Let_def split: if_splits)
      with n us ut Cons c' show ?thesis
        by (auto simp: Let_def eof_def)
    qed
  qed
qed


text \<open>
  Up to the last token before a place \<open>X\<close> where the lexer starts a token, the tokens do
  not depend on what is read from that place on.
\<close>

lemma tokens_context:
  assumes "X \<in> set (token_starts s)" and "pending s = p @ X" and "p \<noteq> []" and "pending t = p @ Y"
  shows "\<exists>ts c s1 t1 tok lit s1' q.
           tokens s = ts @ tokens s1 \<and> tokens t = ts @ tokens t1 \<and>
           pending s1 = c @ X \<and> pending t1 = c @ Y \<and> c \<noteq> [] \<and> p = q @ c \<and>
           Next s1 = (tok, lit, s1') \<and> pending s1' = X \<and>
           pending s1 \<in> set (token_starts s)"
  using assms
proof (induction "length (pending s)" arbitrary: s t p rule: less_induct)
  case less
  from less(3,4) have ne: "pending s \<noteq> []" by simp
  from less(4,5) have net: "pending t \<noteq> []" by simp
  obtain tok lit s' where n: "Next s = (tok, lit, s')" by (cases "Next s")
  from Next_suffix [OF n] obtain c where c: "pending s = c @ pending s'" by auto
  from Next_consumes [OF n ne] c have cne: "c \<noteq> []" by auto
  from less(3,4) have "X \<noteq> pending s" by simp
  with less(2) token_starts_Cons [OF ne n] have X': "X \<in> set (token_starts s')" by auto
  from token_starts_suffix [OF this] obtain p' where p': "pending s' = p' @ X" by auto
  from c p' less(3) have pp: "p = c @ p'" by simp
  show ?case
  proof (cases "p' = []")
    case True
    have "tokens s = [] @ tokens s" "tokens t = [] @ tokens t" by simp_all
    moreover from True pp less(3,5) have "pending s = c @ X" "pending t = c @ Y" "p = [] @ c" by simp_all
    moreover from True p' have "pending s' = X" by simp
    moreover note cne n token_starts_first [of s]
    ultimately show ?thesis by blast
  next
    case False
    from less(3) pp have ps: "pending s = c @ (p' @ X)" by simp
    from less(5) pp have pt: "pending t = c @ (p' @ Y)" by simp
    from False have "p' @ X \<noteq> []" "p' @ Y \<noteq> []" "hd (p' @ X) = hd (p' @ Y)" by simp_all
    from Next_local [OF ps cne n p' this(1) pt this(2,3)]
    obtain t' where nt: "Next t = (tok, lit, t')" and pt': "pending t' = p' @ Y" by auto
    from less(1) [OF Next_consumes [OF n ne] X' p' False pt']
    obtain ts c1 s1 t1 tok1 lit1 s1' q where
      r: "tokens s' = ts @ tokens s1" "tokens t' = ts @ tokens t1"
         "pending s1 = c1 @ X" "pending t1 = c1 @ Y" "c1 \<noteq> []" "p' = q @ c1"
         "Next s1 = (tok1, lit1, s1')" "pending s1' = X" "pending s1 \<in> set (token_starts s')"
      by blast
    from r(1) tokens_Cons [OF ne n] have "tokens s = ((tok, lit) # ts) @ tokens s1" by simp
    moreover from r(2) tokens_Cons [OF net nt] have "tokens t = ((tok, lit) # ts) @ tokens t1" by simp
    moreover from r(6) pp have "p = (c @ q) @ c1" by simp
    moreover from r(9) token_starts_Cons [OF ne n] have "pending s1 \<in> set (token_starts s)" by simp
    ultimately show ?thesis using r(3,4,5,7,8) by blast
  qed
qed

text \<open>Whitespace ahead of a rune 0 is one token with it.\<close>

lemma significant_whitespace_eof:
  assumes "u \<noteq> []" and "\<forall>c\<in>set u. isWhitespace c" and "pending s = u @ eof # r" and "pending t = r"
  shows "significant s = significant t"
proof -
  from assms(1) obtain a u' where u: "u = a # u'" by (cases u) auto
  with assms(2) have a: "isWhitespace a" and u': "\<forall>c\<in>set u'. isWhitespace c" by simp_all
  from assms(3) u have ps: "pending s = a # (u' @ eof # r)" by simp
  have "scanWhitespace_loop [a] \<lparr>pending = u' @ eof # r, unreadable = Some a\<rparr> =
          ([a] @ u', \<lparr>pending = r, unreadable = Some eof\<rparr>)"
    using u' by (intro scanWhitespace_loop_run_eof) simp_all
  with Next_whitespace_unfold [OF ps a]
  have n: "Next s = (WS, [a] @ u', \<lparr>pending = r, unreadable = Some eof\<rparr>)" by simp
  from ps have "pending s \<noteq> []" by simp
  from tokens_Cons [OF this n]
  have "significant s = significant \<lparr>pending = r, unreadable = Some eof\<rparr>"
    by (simp add: significant_def)
  also have "\<dots> = significant t"
    using tokens_same_pending [of "\<lparr>pending = r, unreadable = Some eof\<rparr>" t] assms(4)
    by (simp add: significant_def)
  finally show ?thesis .
qed

text \<open>A run of whitespace where a token starts can be made longer or shorter.\<close>

lemma significant_whitespace_run:
  assumes w: "\<forall>c\<in>set w. isWhitespace c" and w': "\<forall>c\<in>set w'. isWhitespace c" and ne: "w \<noteq> []"
    and e: "w' = [] \<longrightarrow> ys = [] \<or> hd ys \<noteq> eof"
    and ps: "pending s = w @ ys" and pt: "pending t = w' @ ys"
  shows "significant s = significant t"
proof -
  let ?v = "takeWhile isWhitespace ys" and ?r = "dropWhile isWhitespace ys"
  let ?m = "\<lparr>pending = ?r, unreadable = None\<rparr>"
  have ys: "ys = ?v @ ?r" by simp
  have v: "\<forall>c\<in>set ?v. isWhitespace c" by (auto dest: set_takeWhileD)
  have r: "?r = [] \<or> \<not> isWhitespace (hd ?r)" by (metis hd_dropWhile)
  from ps ys have ps': "pending s = (w @ ?v) @ ?r" by (metis append_assoc)
  from pt ys have pt': "pending t = (w' @ ?v) @ ?r" by (metis append_assoc)
  from w v have wv: "\<forall>c\<in>set (w @ ?v). isWhitespace c" by auto
  from w' v have wv': "\<forall>c\<in>set (w' @ ?v). isWhitespace c" by auto
  show ?thesis
  proof (cases "?r = [] \<or> hd ?r \<noteq> eof")
    case True
    with r have c: "?r = [] \<or> \<not> isWhitespace (hd ?r) \<and> hd ?r \<noteq> eof" by auto
    have "significant s = significant ?m"
      by (rule significant_skip_whitespace [OF wv ps' _ c]) simp
    moreover have "significant t = significant ?m"
      by (rule significant_skip_whitespace [OF wv' pt' _ c]) simp
    ultimately show ?thesis by simp
  next
    case False
    then obtain r' where r': "?r = eof # r'" by (cases ?r) auto
    let ?m' = "\<lparr>pending = r', unreadable = None\<rparr>"
    from ne have n1: "w @ ?v \<noteq> []" by simp
    have n2: "w' @ ?v \<noteq> []"
    proof (cases "w' = []")
      case True
      with e have "ys = [] \<or> hd ys \<noteq> eof" by simp
      moreover from ys r' have "ys = ?v @ eof # r'" by simp
      ultimately have "?v \<noteq> []" by (cases ?v) auto
      then show ?thesis by simp
    qed simp
    from ps' r' have a: "pending s = (w @ ?v) @ eof # r'" by simp
    from pt' r' have b: "pending t = (w' @ ?v) @ eof # r'" by simp
    have "significant s = significant ?m'"
      by (rule significant_whitespace_eof [OF n1 wv a]) simp
    moreover have "significant t = significant ?m'"
      by (rule significant_whitespace_eof [OF n2 wv' b]) simp
    ultimately show ?thesis by simp
  qed
qed


section \<open>Whitespace between tokens\<close>


text \<open>
  The result of a parse depends on the input only through the tokens other than
  whitespace that the lexer makes of it, and on the literals of \<^verbatim>\<open>EQUAL\<close> and
  \<^verbatim>\<open>EXCLAMATION_MARK\<close> tokens only through the literal that an error message quotes.
\<close>

lemma Parse_same_tokens:
  "(significant (NewLexer a) = significant (NewLexer b) \<longrightarrow> ParseString a = ParseString b) \<and>
   (map (\<lambda>(tok, lit). (tok, forget_operator_literal tok lit)) (significant (NewLexer a)) =
    map (\<lambda>(tok, lit). (tok, forget_operator_literal tok lit)) (significant (NewLexer b)) \<longrightarrow>
      fst (ParseString a) = fst (ParseString b) \<and>
      map_option forget_error_literal (snd (ParseString a)) =
      map_option forget_error_literal (snd (ParseString b)))"
proof (intro conjI impI)
  assume "significant (NewLexer a) = significant (NewLexer b)"
  then have "same_tokens (\<lambda>tok lit. lit) (NewLexer a) (NewLexer b)"
    by (simp add: same_tokens_def)
  from Parse_loop_same [of "\<lambda>tok lit. lit", OF _ this, of "\<lparr>Requirements = []\<rparr>"]
  show "ParseString a = ParseString b"
    by (auto simp: ParseString_def Parse_def Parser_Parse_def NewParser_def
             dest: same_error_exact intro: prod_eqI)
next
  assume "map (\<lambda>(tok, lit). (tok, forget_operator_literal tok lit)) (significant (NewLexer a)) =
          map (\<lambda>(tok, lit). (tok, forget_operator_literal tok lit)) (significant (NewLexer b))"
  then have st: "same_tokens forget_operator_literal (NewLexer a) (NewLexer b)"
    by (simp add: same_tokens_def)
  have "forget_operator_literal IDENT l = l" for l by (simp add: forget_operator_literal_def)
  from Parse_loop_same [of forget_operator_literal, OF this st, of "\<lparr>Requirements = []\<rparr>"]
  have r: "fst (ParseString a) = fst (ParseString b)"
    "same_error forget_operator_literal (snd (ParseString a)) (snd (ParseString b))"
    by (simp_all add: ParseString_def Parse_def Parser_Parse_def NewParser_def)
  from r(1) show "fst (ParseString a) = fst (ParseString b)" .
  from r(2) show "map_option forget_error_literal (snd (ParseString a)) =
      map_option forget_error_literal (snd (ParseString b))"
    by (rule same_error_forget)
qed

text \<open>
  \<open>after_single_operator xs rest\<close>: in the input \<open>xs @ rest\<close>, the last rune of \<open>xs\<close> is a
  \<^verbatim>\<open>=\<close> or a \<^verbatim>\<open>!\<close> at which the lexer starts a token. When \<open>rest\<close> starts with
  whitespace, that rune is the whole token, and the literal of the token is the first
  rune of \<open>rest\<close>.
\<close>

definition after_single_operator :: "gostring \<Rightarrow> gostring \<Rightarrow> bool" where
  "after_single_operator xs rest \<longleftrightarrow>
     xs \<noteq> [] \<and> (last xs = rune_of CHR ''='' \<or> last xs = rune_of CHR ''!'') \<and>
     last xs # rest \<in> set (token_starts (NewLexer (xs @ rest)))"

text \<open>
  A run \<open>w\<close> of whitespace at which the lexer starts a token is replaced by a run \<open>w'\<close>:
  the tokens other than whitespace stay as they are, but for the literal of a single
  \<^verbatim>\<open>=\<close> or \<^verbatim>\<open>!\<close> right before the run.
\<close>

lemma significant_whitespace_between:
  assumes w: "\<forall>c\<in>set w. isWhitespace c" and w': "\<forall>c\<in>set w'. isWhitespace c" and ne: "w \<noteq> []"
    and start: "w @ ys \<in> set (token_starts (NewLexer (xs @ w @ ys)))"
    and cond: "w' = [] \<longrightarrow>
         (ys = [] \<or> hd ys \<noteq> eof) \<and>
         \<not> (xs \<noteq> [] \<and> ys \<noteq> [] \<and> isValidIdentRune (last xs) \<and> isValidIdentRune (hd ys)) \<and>
         \<not> (after_single_operator xs (w @ ys) \<and> ys \<noteq> [] \<and> hd ys = rune_of CHR ''='')"
  shows "map (\<lambda>(tok, lit). (tok, forget_operator_literal tok lit)) (significant (NewLexer (xs @ w @ ys))) =
         map (\<lambda>(tok, lit). (tok, forget_operator_literal tok lit)) (significant (NewLexer (xs @ w' @ ys))) \<and>
         (\<not> after_single_operator xs (w @ ys) \<longrightarrow>
            significant (NewLexer (xs @ w @ ys)) = significant (NewLexer (xs @ w' @ ys)))"
proof (cases "xs = []")
  case True
  have e: "w' = [] \<longrightarrow> ys = [] \<or> hd ys \<noteq> eof" using cond by simp
  have "significant (NewLexer (w @ ys)) = significant (NewLexer (w' @ ys))"
    by (rule significant_whitespace_run [OF w w' ne e]) (simp_all add: NewLexer_def)
  with True show ?thesis by simp
next
  case False
  let ?A = "NewLexer (xs @ w @ ys)" and ?B = "NewLexer (xs @ w' @ ys)"
  let ?X = "w @ ys" and ?Y = "w' @ ys"
  let ?f = "\<lambda>(tok, lit). (tok, forget_operator_literal tok lit)"
  have pa: "pending ?A = xs @ ?X" and pb: "pending ?B = xs @ ?Y" by (simp_all add: NewLexer_def)
  from tokens_context [OF start pa False pb]
  obtain ts c s1 t1 tok lit s1' q where
    r: "tokens ?A = ts @ tokens s1" "tokens ?B = ts @ tokens t1"
       "pending s1 = c @ ?X" "pending t1 = c @ ?Y" "c \<noteq> []" "xs = q @ c"
       "Next s1 = (tok, lit, s1')" "pending s1' = ?X" "pending s1 \<in> set (token_starts ?A)"
    by blast
  let ?op = "c = [rune_of CHR ''=''] \<or> c = [rune_of CHR ''!'']"
  from ne have X: "?X \<noteq> []" and hx: "hd ?X = hd w" by simp_all
  from ne w hx have wx: "isWhitespace (hd ?X)" by simp
  from r(5,6) have lc: "last c = last xs" by simp
  have hy: "w' \<noteq> [] \<Longrightarrow> isWhitespace (hd ?Y)" using w' by simp
  have op: "after_single_operator xs ?X" if "?op"
  proof -
    from that r(6) have "last xs = rune_of CHR ''='' \<or> last xs = rune_of CHR ''!''" by auto
    moreover from that r(3) lc have "pending s1 = last xs # ?X" by auto
    ultimately show ?thesis using r(9) False by (simp add: after_single_operator_def)
  qed
  have Y1: "?Y = [] \<or> hd ?Y \<noteq> eof"
  proof (cases "w' = []")
    case True
    with cond show ?thesis by simp
  next
    case False
    from Whitespace_not_eof [OF hy [OF False]] show ?thesis by simp
  qed
  have Y2: "\<not> (isValidIdentRune (last c) \<and> ?Y \<noteq> [] \<and> isValidIdentRune (hd ?Y))"
  proof (cases "w' = []")
    case True
    with cond lc \<open>xs \<noteq> []\<close> show ?thesis by auto
  next
    case False
    from Whitespace_not_ValidIdentRune [OF hy [OF False]] show ?thesis by simp
  qed
  have Y3: "\<not> (?op \<and> ?Y \<noteq> [] \<and> hd ?Y = rune_of CHR ''='')"
  proof (cases "w' = []")
    case True
    with cond op show ?thesis by auto
  next
    case False
    from equal_not_whitespace [OF hy [OF False]] show ?thesis by simp
  qed
  from Next_before_whitespace [OF r(3,5,7,8) X wx r(4) Y1 Y2 Y3]
  obtain lit' t1' where nt: "Next t1 = (tok, lit', t1')" and pt: "pending t1' = ?Y"
    and l: "if ?op then tok = EQUAL \<or> tok = EXCLAMATION_MARK else lit' = lit"
    by blast
  have e: "w' = [] \<longrightarrow> ys = [] \<or> hd ys \<noteq> eof" using cond by simp
  have sg: "significant s1' = significant t1'"
    by (rule significant_whitespace_run [OF w w' ne e r(8) pt])
  from r(3,5) have "pending s1 \<noteq> []" by simp
  from tokens_Cons [OF this r(7)] r(1) have ta: "tokens ?A = ts @ (tok, lit) # tokens s1'" by simp
  from r(4,5) have "pending t1 \<noteq> []" by simp
  from tokens_Cons [OF this nt] r(2) have tb: "tokens ?B = ts @ (tok, lit') # tokens t1'" by simp
  have fl: "forget_operator_literal tok lit' = forget_operator_literal tok lit"
    using l by (auto simp: forget_operator_literal_def split: if_splits)
  have 1: "map ?f (significant ?A) = map ?f (significant ?B)"
    using ta tb sg fl by (simp add: significant_def)
  have 2: "significant ?A = significant ?B" if "\<not> after_single_operator xs ?X"
  proof -
    from that op have "\<not> ?op" by blast
    with l have "lit' = lit" by simp
    with ta tb sg show ?thesis by (simp add: significant_def)
  qed
  from 1 2 show ?thesis by blast
qed

text \<open>
  Claim C9, as stated: whitespace put between two tokens, or taken away from between
  them, never changes the result. Two tokens that only whitespace keeps apart become one
  when it is taken away: \<^verbatim>\<open>a b\<close> is an error, \<^verbatim>\<open>ab\<close> is one \<^verbatim>\<open>Exists\<close> requirement, and
  \<^verbatim>\<open>a = =b\<close> is an error, \<^verbatim>\<open>a ==b\<close> an \<^verbatim>\<open>Equals\<close> requirement. The literal of a single
  \<^verbatim>\<open>=\<close> (and of \<^verbatim>\<open>!\<close>) is the rune after it, so a space after it changes the literal that
  an error message quotes: \<^verbatim>\<open>a not =x\<close> and \<^verbatim>\<open>a not = x\<close> fail with different errors. And
  whitespace before a rune 0 makes one token with it, while a rune 0 that starts a token
  ends the parse: \<^verbatim>\<open>a,\<close>, rune 0, \<^verbatim>\<open>b\<close> has the one requirement \<^verbatim>\<open>a\<close>, but with a space
  after the comma it has the two requirements \<^verbatim>\<open>a\<close> and \<^verbatim>\<open>b\<close>.
\<close>

theorem Parse_whitespace_changes_result:
  "ParseString (runes ''a b'') = (\<lparr>Requirements = []\<rparr>, Some (UnexpectedToken (runes ''b''))) \<and>
   ParseString (runes ''ab'') =
     (\<lparr>Requirements = [\<lparr>Key = runes ''ab'', Value = [], Values = [], Operation = OperationExists\<rparr>]\<rparr>, None) \<and>
   ParseString (runes ''a not =x'') = (\<lparr>Requirements = []\<rparr>, Some (RequireInAfterNot (runes ''x''))) \<and>
   ParseString (runes ''a not = x'') = (\<lparr>Requirements = []\<rparr>, Some (RequireInAfterNot (runes '' ''))) \<and>
   ParseString (runes ''a = =b'') = (\<lparr>Requirements = []\<rparr>, Some ExpectIdentAfterEqual) \<and>
   ParseString (runes ''a ==b'') =
     (\<lparr>Requirements = [\<lparr>Key = runes ''a'', Value = runes ''b'', Values = [], Operation = OperationEquals\<rparr>]\<rparr>, None) \<and>
   ParseString (runes ''a,'' @ 0 # runes ''b'') =
     (\<lparr>Requirements = [\<lparr>Key = runes ''a'', Value = [], Values = [], Operation = OperationExists\<rparr>]\<rparr>, None) \<and>
   ParseString (runes ''a, '' @ 0 # runes ''b'') =
     (\<lparr>Requirements = [\<lparr>Key = runes ''a'', Value = [], Values = [], Operation = OperationExists\<rparr>,
                       \<lparr>Key = runes ''b'', Value = [], Values = [], Operation = OperationExists\<rparr>]\<rparr>, None)"
  by code_simp


text \<open>
  Claim C9, amended. In the input \<open>xs @ w @ ys\<close> let \<open>w\<close> be a non-empty run of spaces,
  tabs and newlines at which the lexer starts a token, so that \<open>w\<close> lies between two
  tokens and not inside a quoted literal. Then \<open>w\<close> can be replaced by any other run \<open>w'\<close>
  of spaces, tabs and newlines: the parse returns the same selector, and the same error up
  to the token text that the message of the error quotes; it returns exactly the same
  error unless \<open>w\<close> comes right after a single \<^verbatim>\<open>=\<close> or \<^verbatim>\<open>!\<close>. The run can also be taken
  away altogether (\<open>w'\<close> empty; read from right to left, \<open>w\<close> is put in where there was no
  whitespace), but for three cases: the runes on both sides of \<open>w\<close> are runes of
  identifiers, which would become one identifier; \<open>w\<close> stands between a single \<^verbatim>\<open>=\<close> or
  \<^verbatim>\<open>!\<close> and a \<^verbatim>\<open>=\<close>, which would become one operator; a rune 0 follows \<open>w\<close>.
\<close>

theorem Parse_whitespace_between_tokens:
  assumes "w \<noteq> []"
    and "set w \<subseteq> {rune_of CHR '' '', rune_of CHR 0x09, rune_of CHR 0x0A}"
    and "set w' \<subseteq> {rune_of CHR '' '', rune_of CHR 0x09, rune_of CHR 0x0A}"
    and "w @ ys \<in> set (token_starts (NewLexer (xs @ w @ ys)))"
    and "w' = [] \<longrightarrow>
         (ys = [] \<or> hd ys \<noteq> eof) \<and>
         \<not> (xs \<noteq> [] \<and> ys \<noteq> [] \<and> isValidIdentRune (last xs) \<and> isValidIdentRune (hd ys)) \<and>
         \<not> (after_single_operator xs (w @ ys) \<and> ys \<noteq> [] \<and> hd ys = rune_of CHR ''='')"
  shows "fst (ParseString (xs @ w @ ys)) = fst (ParseString (xs @ w' @ ys)) \<and>
         map_option forget_error_literal (snd (ParseString (xs @ w @ ys))) =
         map_option forget_error_literal (snd (ParseString (xs @ w' @ ys))) \<and>
         (\<not> after_single_operator xs (w @ ys) \<longrightarrow>
            ParseString (xs @ w @ ys) = ParseString (xs @ w' @ ys))"
proof -
  have w: "\<forall>c\<in>set w. isWhitespace c" and w': "\<forall>c\<in>set w'. isWhitespace c"
    using assms(2,3) by (auto simp: isWhitespace_def)
  note s = significant_whitespace_between [OF w w' assms(1,4,5)]
  note p = Parse_same_tokens [of "xs @ w @ ys" "xs @ w' @ ys"]
  from s p show ?thesis by blast
qed


theorem Parse_whitespace_between_tokens_witness:
  "ParseString (runes ''foo'' @ [rune_of CHR 0x09, rune_of CHR '' ''] @ runes ''=bar, !x'') =
     ParseString (runes ''foo'' @ [] @ runes ''=bar, !x'') \<and>
   ParseString (runes ''foo'' @ [] @ runes ''=bar, !x'') =
     (\<lparr>Requirements =
        [\<lparr>Key = runes ''foo'', Value = runes ''bar'', Values = [], Operation = OperationEquals\<rparr>,
         \<lparr>Key = runes ''x'', Value = [], Values = [], Operation = OperationNotExists\<rparr>]\<rparr>, None) \<and>
   fst (ParseString (runes ''a not ='' @ [rune_of CHR '' ''] @ runes ''x'')) =
     fst (ParseString (runes ''a not ='' @ [rune_of CHR 0x09, rune_of CHR 0x0A] @ runes ''x'')) \<and>
   map_option forget_error_literal (snd (ParseString (runes ''a not ='' @ [rune_of CHR '' ''] @ runes ''x''))) =
     map_option forget_error_literal
       (snd (ParseString (runes ''a not ='' @ [rune_of CHR 0x09, rune_of CHR 0x0A] @ runes ''x'')))"
proof -
  let ?w = "[rune_of CHR 0x09, rune_of CHR '' '']"
  have 1: "?w \<noteq> []" by simp
  have 2: "set ?w \<subseteq> {rune_of CHR '' '', rune_of CHR 0x09, rune_of CHR 0x0A}" by simp
  have 3: "set [] \<subseteq> {rune_of CHR '' '', rune_of CHR 0x09, rune_of CHR 0x0A}" by simp
  have 4: "?w @ runes ''=bar, !x'' \<in> set (token_starts (NewLexer (runes ''foo'' @ ?w @ runes ''=bar, !x'')))"
    by code_simp
  have n: "\<not> after_single_operator (runes ''foo'') (?w @ runes ''=bar, !x'')"
    by (simp add: after_single_operator_def runes_def)
  have 5: "[] = [] \<longrightarrow>
         (runes ''=bar, !x'' = [] \<or> hd (runes ''=bar, !x'') \<noteq> eof) \<and>
         \<not> (runes ''foo'' \<noteq> [] \<and> runes ''=bar, !x'' \<noteq> [] \<and> isValidIdentRune (last (runes ''foo'')) \<and>
              isValidIdentRune (hd (runes ''=bar, !x''))) \<and>
         \<not> (after_single_operator (runes ''foo'') (?w @ runes ''=bar, !x'') \<and> runes ''=bar, !x'' \<noteq> [] \<and>
              hd (runes ''=bar, !x'') = rune_of CHR ''='')"
    using n by (simp add: runes_def eof_def isValidIdentRune_def)
  from Parse_whitespace_between_tokens [OF 1 2 3 4 5] n
  have a: "ParseString (runes ''foo'' @ ?w @ runes ''=bar, !x'') =
     ParseString (runes ''foo'' @ [] @ runes ''=bar, !x'')"
    by blast
  have b: "ParseString (runes ''foo'' @ [] @ runes ''=bar, !x'') =
     (\<lparr>Requirements =
        [\<lparr>Key = runes ''foo'', Value = runes ''bar'', Values = [], Operation = OperationEquals\<rparr>,
         \<lparr>Key = runes ''x'', Value = [], Values = [], Operation = OperationNotExists\<rparr>]\<rparr>, None)"
    by code_simp
  let ?v = "[rune_of CHR '' '']" and ?v' = "[rune_of CHR 0x09, rune_of CHR 0x0A]"
  have 6: "?v \<noteq> []" by simp
  have 7: "set ?v \<subseteq> {rune_of CHR '' '', rune_of CHR 0x09, rune_of CHR 0x0A}" by simp
  have 8: "set ?v' \<subseteq> {rune_of CHR '' '', rune_of CHR 0x09, rune_of CHR 0x0A}" by simp
  have 9: "?v @ runes ''x'' \<in> set (token_starts (NewLexer (runes ''a not ='' @ ?v @ runes ''x'')))"
    by code_simp
  have 10: "?v' = [] \<longrightarrow>
         (runes ''x'' = [] \<or> hd (runes ''x'') \<noteq> eof) \<and>
         \<not> (runes ''a not ='' \<noteq> [] \<and> runes ''x'' \<noteq> [] \<and> isValidIdentRune (last (runes ''a not ='')) \<and>
              isValidIdentRune (hd (runes ''x''))) \<and>
         \<not> (after_single_operator (runes ''a not ='') (?v @ runes ''x'') \<and> runes ''x'' \<noteq> [] \<and>
              hd (runes ''x'') = rune_of CHR ''='')"
    by simp
  from Parse_whitespace_between_tokens [OF 6 7 8 9 10]
  have c: "fst (ParseString (runes ''a not ='' @ ?v @ runes ''x'')) =
             fst (ParseString (runes ''a not ='' @ ?v' @ runes ''x'')) \<and>
           map_option forget_error_literal (snd (ParseString (runes ''a not ='' @ ?v @ runes ''x''))) =
             map_option forget_error_literal (snd (ParseString (runes ''a not ='' @ ?v' @ runes ''x'')))"
    by blast
  from a b c show ?thesis by blast
qed


section \<open>The requirements before an error\<close>































end
